theory Spec2Isabelle
  imports Main "HOL-Library.Sublist"
begin

section \<open>Scripts/bump\_build\_tag.py\<close>

text \<open>
  A shallow embedding of the Python 2 script \<^verbatim>\<open>Scripts/bump_build_tag.py\<close>.
  Python \<^verbatim>\<open>str\<close> values are byte strings, modelled as \<^typ>\<open>string\<close>;
  Python integers are unbounded, modelled as \<^typ>\<open>int\<close>.  What the script
  prints on standard output is not modelled.
\<close>

subsection \<open>Errors\<close>

text \<open>
  \<^verbatim>\<open>fail(message)\<close> prints the message and calls \<^verbatim>\<open>sys.exit(1)\<close>: it is
  the script's diagnostic failure path, \<open>Fail message\<close>.  The other constructors
  are the exceptions the script does not catch (the interpreter prints a traceback and
  exits with status 1) and the \<^verbatim>\<open>sys.exit(1)\<close> of \<^verbatim>\<open>execute_command\<close>.
\<close>

datatype error =
    Fail string
  | ValueError
  | IOError
  | CalledProcessError
  | Exit1

subsection \<open>Characters and the functions \<^verbatim>\<open>str.strip\<close>, \<^verbatim>\<open>int\<close> and \<^verbatim>\<open>str\<close>\<close>

definition is_digit :: "char \<Rightarrow> bool" where
  "is_digit c = (c \<in> set ''0123456789'')"

text \<open>The six characters for which C's \<^verbatim>\<open>isspace\<close> holds: space, \<^verbatim>\<open>\t \n \v \f \r\<close>.\<close>

definition is_space :: "char \<Rightarrow> bool" where
  "is_space c = (c \<in> set [CHR '' '', CHR 0x09, CHR 0x0A, CHR 0x0B, CHR 0x0C, CHR 0x0D])"

definition strip :: "string \<Rightarrow> string" where
  "strip s = rev (dropWhile is_space (rev (dropWhile is_space s)))"

definition digit_val :: "char \<Rightarrow> nat" where
  "digit_val c = of_char c - 48"

definition digit_char :: "nat \<Rightarrow> char" where
  "digit_char d = char_of (48 + d)"

definition nat_of_digits :: "string \<Rightarrow> nat" where
  "nat_of_digits s = foldl (\<lambda>acc c. 10 * acc + digit_val c) 0 s"

fun str_nat :: "nat \<Rightarrow> string" where
  "str_nat n = (if n < 10 then [digit_char n] else str_nat (n div 10) @ [digit_char (n mod 10)])"

declare str_nat.simps [simp del]

text \<open>\<^verbatim>\<open>str(n)\<close> of an integer: a minus sign for a negative one, then the decimal digits.\<close>

definition str_int :: "int \<Rightarrow> string" where
  "str_int i = (if i < 0 then CHR ''-'' # str_nat (nat (- i)) else str_nat (nat i))"

text \<open>
  \<^verbatim>\<open>int(text)\<close> of a byte string, base 10: surrounding whitespace is skipped, one
  sign is allowed, then at least one decimal digit and nothing else; anything else
  raises \<^verbatim>\<open>ValueError\<close>.
\<close>

definition py_int :: "string \<Rightarrow> error + int" where
  "py_int text =
     (let s = strip text;
          (neg, ds) = (case s of
                         c # r \<Rightarrow> if c = CHR ''-'' then (True, r)
                                  else if c = CHR ''+'' then (False, r)
                                  else (False, s)
                       | [] \<Rightarrow> (False, s))
      in if ds \<noteq> [] \<and> list_all is_digit ds
         then Inr (if neg then - int (nat_of_digits ds) else int (nat_of_digits ds))
         else Inl ValueError)"

subsection \<open>Regular expressions: the part of \<^verbatim>\<open>re\<close> the script uses\<close>

text \<open>
  Every pattern of the script is a sequence of literals, character classes, greedy
  \<^verbatim>\<open>+\<close> and \<^verbatim>\<open>*\<close> on one character class, unnested capturing groups and the
  anchors \<^verbatim>\<open>^\<close> and \<^verbatim>\<open>$\<close>.  \<^verbatim>\<open>re.MULTILINE\<close> is given only to patterns
  without an anchor, where it changes nothing.
\<close>

datatype cclass =
    Digit            \<comment> \<open>\<^verbatim>\<open>\d\<close>\<close>
  | Space            \<comment> \<open>\<^verbatim>\<open>\s\<close>\<close>
  | DigitOrDot       \<comment> \<open>\<^verbatim>\<open>[\d\.]\<close>\<close>
  | AnyButNewline    \<comment> \<open>\<^verbatim>\<open>.\<close>\<close>

fun cmem :: "cclass \<Rightarrow> char \<Rightarrow> bool" where
  "cmem Digit c = is_digit c"
| "cmem Space c = is_space c"
| "cmem DigitOrDot c = (is_digit c \<or> c = CHR ''.'')"
| "cmem AnyButNewline c = (c \<noteq> CHR 0x0A)"

datatype item =
    Str string       \<comment> \<open>literal text\<close>
  | One cclass
  | Star cclass      \<comment> \<open>greedy \<^verbatim>\<open>*\<close>\<close>
  | Plus cclass      \<comment> \<open>greedy \<^verbatim>\<open>+\<close>\<close>
  | GOpen            \<comment> \<open>\<^verbatim>\<open>(\<close>\<close>
  | GClose           \<comment> \<open>\<^verbatim>\<open>)\<close>\<close>
  | Bol              \<comment> \<open>\<^verbatim>\<open>^\<close>\<close>
  | Eol              \<comment> \<open>\<^verbatim>\<open>$\<close>\<close>

type_synonym regex = "item list"

text \<open>
  \<open>rmatch p pos s\<close> matches the pattern \<open>p\<close> at offset \<open>pos\<close> of the subject,
  whose text from \<open>pos\<close> on is \<open>s\<close>, the way a backtracking matcher does: a greedy
  repetition takes as many characters as it can and gives them back one at a time while
  the rest of the pattern fails.  The result lists the offsets at which the groups
  opened and closed, in pattern order.  Without \<^verbatim>\<open>re.MULTILINE\<close>, \<^verbatim>\<open>^\<close> holds at
  offset 0 only, and \<^verbatim>\<open>$\<close> at the end of the subject and before a newline that is
  its last character.
\<close>

fun rmatch :: "regex \<Rightarrow> nat \<Rightarrow> string \<Rightarrow> nat list option" where
  "rmatch [] pos s = Some []"
| "rmatch (Str l # p) pos s =
     (if prefix l s then rmatch p (pos + length l) (drop (length l) s) else None)"
| "rmatch (One c # p) pos [] = None"
| "rmatch (One c # p) pos (x # xs) = (if cmem c x then rmatch p (Suc pos) xs else None)"
| "rmatch (Star c # p) pos [] = rmatch p pos []"
| "rmatch (Star c # p) pos (x # xs) =
     (if cmem c x
      then (case rmatch (Star c # p) (Suc pos) xs of
              Some m \<Rightarrow> Some m
            | None \<Rightarrow> rmatch p pos (x # xs))
      else rmatch p pos (x # xs))"
| "rmatch (Plus c # p) pos [] = None"
| "rmatch (Plus c # p) pos (x # xs) =
     (if cmem c x then rmatch (Star c # p) (Suc pos) xs else None)"
| "rmatch (GOpen # p) pos s = map_option (Cons pos) (rmatch p pos s)"
| "rmatch (GClose # p) pos s = map_option (Cons pos) (rmatch p pos s)"
| "rmatch (Bol # p) pos s = (if pos = 0 then rmatch p pos s else None)"
| "rmatch (Eol # p) pos s = (if s = [] \<or> s = [CHR 0x0A] then rmatch p pos s else None)"

text \<open>\<^verbatim>\<open>regex.search\<close>: the first offset, from the left, at which the pattern matches.\<close>

fun search_from :: "regex \<Rightarrow> nat \<Rightarrow> string \<Rightarrow> nat list option" where
  "search_from p pos [] = rmatch p pos []"
| "search_from p pos (x # xs) =
     (case rmatch p pos (x # xs) of
        Some m \<Rightarrow> Some m
      | None \<Rightarrow> search_from p (Suc pos) xs)"

definition search :: "regex \<Rightarrow> string \<Rightarrow> nat list option" where
  "search p text = search_from p 0 text"

text \<open>\<^verbatim>\<open>text[i:j]\<close> for offsets \<open>i \<le> j\<close>.\<close>

definition slice :: "string \<Rightarrow> nat \<Rightarrow> nat \<Rightarrow> string" where
  "slice text i j = take (j - i) (drop i text)"

text \<open>\<^verbatim>\<open>match.groups()\<close>: the text of each group, from the offsets of a match.\<close>

fun groups :: "string \<Rightarrow> nat list \<Rightarrow> string list" where
  "groups text (i # j # m) = slice text i j # groups text m"
| "groups text m = []"

subsection \<open>Validity checks\<close>

definition regex_version_1 :: regex where
  "regex_version_1 = [Bol, GOpen, Plus Digit, GClose, Eol]"

definition regex_version_3 :: regex where
  "regex_version_3 =
     [Bol, GOpen, Plus Digit, GClose, Str ''.'', GOpen, Plus Digit, GClose, Str ''.'',
      GOpen, Plus Digit, GClose, Eol]"

text \<open>The last dot of this pattern is not escaped in the source: it is \<^verbatim>\<open>.\<close>, any character.\<close>

definition regex_version_4 :: regex where
  "regex_version_4 =
     [Bol, GOpen, Plus Digit, GClose, Str ''.'', GOpen, Plus Digit, GClose, Str ''.'',
      GOpen, Plus Digit, GClose, One AnyButNewline, GOpen, Plus Digit, GClose, Eol]"

definition is_valid_version_1 :: "string \<Rightarrow> bool" where
  "is_valid_version_1 v = (search regex_version_1 v \<noteq> None)"

definition is_valid_version_3 :: "string \<Rightarrow> bool" where
  "is_valid_version_3 v = (search regex_version_3 v \<noteq> None)"

definition is_valid_version_4 :: "string \<Rightarrow> bool" where
  "is_valid_version_4 v = (search regex_version_4 v \<noteq> None)"

subsection \<open>The version classes\<close>

datatype Version1 = Version1 (build: int)

datatype Version3 = Version3 (major: int) (minor: int) (patch: int)

datatype Version4 = Version4 (major4: int) (minor4: int) (patch4: int) (build4: int)

fun formatted1 :: "Version1 \<Rightarrow> string" where
  "formatted1 (Version1 b) = str_int b"

fun formatted3 :: "Version3 \<Rightarrow> string" where
  "formatted3 (Version3 ma mi pa) = str_int ma @ ''.'' @ str_int mi @ ''.'' @ str_int pa"

fun formatted4 :: "Version4 \<Rightarrow> string" where
  "formatted4 (Version4 ma mi pa b) =
     str_int ma @ ''.'' @ str_int mi @ ''.'' @ str_int pa @ ''.'' @ str_int b"

subsection \<open>Parsing\<close>

definition could_not_parse :: error where
  "could_not_parse = Fail ''Could not parse .plist''"

definition parse_version_3 :: "string \<Rightarrow> error + Version3" where
  "parse_version_3 text =
     (case search regex_version_3 text of
        None \<Rightarrow> Inl could_not_parse
      | Some m \<Rightarrow>
          (case groups text m of
             [g1, g2, g3] \<Rightarrow>
               (case py_int g1 of Inl e \<Rightarrow> Inl e | Inr ma \<Rightarrow>
               (case py_int g2 of Inl e \<Rightarrow> Inl e | Inr mi \<Rightarrow>
               (case py_int g3 of Inl e \<Rightarrow> Inl e | Inr pa \<Rightarrow>
                  (let version = Version3 ma mi pa
                   in if formatted3 version \<noteq> text then Inl could_not_parse
                      else Inr version))))
           | _ \<Rightarrow> Inl could_not_parse))"

definition parse_version_1 :: "string \<Rightarrow> error + Version1" where
  "parse_version_1 text =
     (case py_int text of
        Inl e \<Rightarrow> Inl e
      | Inr b \<Rightarrow>
          (let version = Version1 b
           in if formatted1 version \<noteq> text then Inl could_not_parse
              else Inr version))"

subsection \<open>Reading the versions of a descriptor\<close>

definition release_version_regex :: regex where
  "release_version_regex =
     [Str ''<key>CFBundleShortVersionString</key>'', Star Space, Str ''<string>'',
      GOpen, Plus Digit, Str ''.'', Plus Digit, Str ''.'', Plus Digit, GClose,
      Str ''</string>'']"

definition build_version_1_regex :: regex where
  "build_version_1_regex =
     [Str ''<key>CFBundleVersion</key>'', Star Space, Str ''<string>'',
      GOpen, Plus Digit, GClose, Str ''</string>'']"

text \<open>\<^verbatim>\<open>match.group(1)\<close> of a match of a pattern with one group.\<close>

fun group1 :: "string \<Rightarrow> nat list \<Rightarrow> string" where
  "group1 text (i # j # m) = slice text i j"
| "group1 text m = []"

text \<open>
  The file system: the regular files with their content, and the directories.  A path is
  the list of the names from the root, so that \<^verbatim>\<open>os.path.dirname\<close> drops the last
  name, the root is its own parent, and \<^verbatim>\<open>os.path.join\<close> appends names.  The
  record also keeps the commands passed to \<^verbatim>\<open>execute_command\<close>, in order.
\<close>

type_synonym path = "string list"

record world =
  files :: "path \<rightharpoonup> string"
  dirs :: "path set"
  commands :: "string list list"

definition path_exists :: "world \<Rightarrow> path \<Rightarrow> bool" where
  "path_exists w p = (files w p \<noteq> None \<or> p \<in> dirs w)"

text \<open>\<^verbatim>\<open>open(path, 'rt').read()\<close>: \<^verbatim>\<open>IOError\<close> when there is no such file.\<close>

definition read_file :: "world \<Rightarrow> path \<Rightarrow> error + string" where
  "read_file w p = (case files w p of None \<Rightarrow> Inl IOError | Some text \<Rightarrow> Inr text)"

definition write_file :: "world \<Rightarrow> path \<Rightarrow> string \<Rightarrow> world" where
  "write_file w p text = w\<lparr>files := (files w)(p \<mapsto> text)\<rparr>"

definition get_versions :: "world \<Rightarrow> path \<Rightarrow> error + (Version3 \<times> Version1)" where
  "get_versions w plist_file_path =
     (case read_file w plist_file_path of
        Inl e \<Rightarrow> Inl e
      | Inr text \<Rightarrow>
     (case search release_version_regex text of
        None \<Rightarrow> Inl could_not_parse
      | Some release_version_match \<Rightarrow>
     (case search build_version_1_regex text of
        None \<Rightarrow> Inl could_not_parse
      | Some build_version_1_match \<Rightarrow>
     (case parse_version_3 (group1 text release_version_match) of
        Inl e \<Rightarrow> Inl e
      | Inr release_version \<Rightarrow>
     (case parse_version_1 (group1 text build_version_1_match) of
        Inl e \<Rightarrow> Inl e
      | Inr build_version_1 \<Rightarrow> Inr (release_version, build_version_1))))))"

subsection \<open>Rewriting the versions of a descriptor\<close>

text \<open>
  The three patterns of \<^verbatim>\<open>set_versions\<close> differ in the key only:
  \<^verbatim>\<open><key>...</key>\s*<string>([\d\.]+)</string>\<close>.
\<close>

definition file_regex :: "string \<Rightarrow> regex" where
  "file_regex key_element =
     [Str key_element, Star Space, Str ''<string>'', GOpen, Plus DigitOrDot, GClose,
      Str ''</string>'']"

text \<open>
  One of the three blocks of \<^verbatim>\<open>set_versions\<close>: search the pattern in the current
  text, fail when it is not found, else replace the text of group 1 by the new value:
  \<^verbatim>\<open>text[:file_match.start(1)] + value + text[file_match.end(1):]\<close>.
\<close>

definition replace_value :: "string \<Rightarrow> string \<Rightarrow> string \<Rightarrow> error + string" where
  "replace_value key_element text new_value =
     (case search (file_regex key_element) text of
        Some [start1, end1] \<Rightarrow> Inr (take start1 text @ new_value @ drop end1 text)
      | _ \<Rightarrow> Inl could_not_parse)"

definition rewrite_text :: "string \<Rightarrow> string \<Rightarrow> string \<Rightarrow> string \<Rightarrow> error + string" where
  "rewrite_text text release_version build_version_1 build_version_4 =
     (case replace_value ''<key>CFBundleShortVersionString</key>'' text release_version of
        Inl e \<Rightarrow> Inl e
      | Inr text1 \<Rightarrow>
     (case replace_value ''<key>CFBundleVersion</key>'' text1 build_version_1 of
        Inl e \<Rightarrow> Inl e
      | Inr text2 \<Rightarrow>
          replace_value ''<key>OWSBundleVersion4</key>'' text2 build_version_4))"

definition set_versions :: "world \<Rightarrow> path \<Rightarrow> string \<Rightarrow> string \<Rightarrow> string \<Rightarrow> error + world" where
  "set_versions w plist_file_path release_version build_version_1 build_version_4 =
     (if \<not> is_valid_version_3 release_version
      then Inl (Fail (''Invalid release version: '' @ release_version))
      else if \<not> is_valid_version_1 build_version_1
      then Inl (Fail (''Invalid build version 1: '' @ build_version_1))
      else if \<not> is_valid_version_4 build_version_4
      then Inl (Fail (''Invalid build version 4: '' @ build_version_4))
      else
        (case read_file w plist_file_path of
           Inl e \<Rightarrow> Inl e
         | Inr text \<Rightarrow>
        (case rewrite_text text release_version build_version_1 build_version_4 of
           Inl e \<Rightarrow> Inl e
         | Inr text' \<Rightarrow> Inr (write_file w plist_file_path text'))))"

subsection \<open>The next versions\<close>

text \<open>
  Lines 294 to 317 of the script.  \<^verbatim>\<open>args.version\<close> is \<^verbatim>\<open>None\<close> without the
  option; \<^verbatim>\<open>if args.version:\<close> holds for a string that is not empty.
\<close>

definition version_policy ::
  "Version3 \<Rightarrow> Version1 \<Rightarrow> string option \<Rightarrow> error + (Version3 \<times> Version1 \<times> Version4)" where
  "version_policy old_release_version old_build_version_1 version =
     (case version of
        Some v \<Rightarrow>
          if v \<noteq> []
          then (case parse_version_3 (strip v) of
                  Inl e \<Rightarrow> Inl e
                | Inr new_release_version_3 \<Rightarrow>
                    Inr (new_release_version_3, Version1 0,
                         Version4 (major new_release_version_3) (minor new_release_version_3)
                                  (patch new_release_version_3) 0))
          else Inr (old_release_version, Version1 (build old_build_version_1 + 1),
                    Version4 (major old_release_version) (minor old_release_version)
                             (patch old_release_version) (build old_build_version_1 + 1))
      | None \<Rightarrow>
          Inr (old_release_version, Version1 (build old_build_version_1 + 1),
               Version4 (major old_release_version) (minor old_release_version)
                        (patch old_release_version) (build old_build_version_1 + 1)))"

subsection \<open>Commit message and tag\<close>

record date =
  year :: nat
  month :: nat
  day :: nat

definition pad2 :: "nat \<Rightarrow> string" where
  "pad2 n = (if n < 10 then CHR ''0'' # str_nat n else str_nat n)"

text \<open>
  \<^verbatim>\<open>d.strftime("%m-%d-%Y")\<close>; Python 2 raises \<^verbatim>\<open>ValueError\<close> for a year before 1900.
\<close>

definition strftime_mdY :: "date \<Rightarrow> error + string" where
  "strftime_mdY d =
     (if year d < 1900 then Inl ValueError
      else Inr (pad2 (month d) @ ''-'' @ pad2 (day d) @ ''-'' @ str_nat (year d)))"

definition commit_message :: "bool \<Rightarrow> bool \<Rightarrow> bool \<Rightarrow> date \<Rightarrow> string \<Rightarrow> error + string" where
  "commit_message is_internal is_beta is_nightly today new_build_version_4 =
     (if is_internal then Inr (''\"Bump build to '' @ new_build_version_4 @ ''.\" (Internal)'')
      else if is_beta then Inr (''\"Bump build to '' @ new_build_version_4 @ ''.\" (Beta)'')
      else if is_nightly then
        (case strftime_mdY today of
           Inl e \<Rightarrow> Inl e
         | Inr d \<Rightarrow> Inr (''\"Bump build to '' @ new_build_version_4 @ ''.\" (nightly-'' @ d @ '')''))
      else Inr (''\"Bump build to '' @ new_build_version_4 @ ''.\"''))"

definition tag_name :: "bool \<Rightarrow> bool \<Rightarrow> bool \<Rightarrow> string \<Rightarrow> string" where
  "tag_name is_internal is_beta is_nightly new_build_version_4 =
     (if is_internal then new_build_version_4 @ ''-internal''
      else if is_nightly then new_build_version_4 @ ''-nightly''
      else if is_beta then new_build_version_4 @ ''-beta''
      else new_build_version_4)"

subsection \<open>The command\<close>

text \<open>
  What a run takes from outside: the working directory, the parsed command line, what
  the two git queries print (nothing when the query exits non-zero, which raises
  \<^verbatim>\<open>CalledProcessError\<close>), what \<^verbatim>\<open>plutil -convert xml1\<close> makes of a file's content (nothing when
  it fails), which of the commands given to \<^verbatim>\<open>execute_command\<close> succeed, and the
  date.
\<close>

record env =
  cwd :: path
  version :: "string option"
  internal :: bool
  nightly :: bool
  beta :: bool
  git_status :: "string option"
  git_diff :: "string option"
  plutil :: "string \<Rightarrow> string option"
  command_ok :: "string list \<Rightarrow> bool"
  today :: date

text \<open>
  What git prints for the two queries: nothing when the working tree is clean; otherwise
  \<^verbatim>\<open>git status --porcelain\<close> prints a line with a status code and a path for each changed
  path and \<^verbatim>\<open>git diff --shortstat\<close> a line that counts the changes, so that an output
  that is not empty has a character that is not whitespace.
\<close>

definition git_output :: "string \<Rightarrow> bool" where
  "git_output out = (out = [] \<or> list_ex (\<lambda>c. \<not> is_space c) out)"

function find_project_root_from :: "world \<Rightarrow> path \<Rightarrow> error + path" where
  "find_project_root_from w path =
     (if \<not> path_exists w path then Inl (Fail ''Could not find project root path'')
      else if path_exists w (path @ [''.git'']) then Inr path
      else if butlast path = path then Inl (Fail ''Could not find project root path'')
      else find_project_root_from w (butlast path))"
  by pat_completeness auto
termination
  by (relation "measure (\<lambda>(w, path). length path)") (auto simp: butlast_conv_take)

declare find_project_root_from.simps [simp del]

definition find_project_root :: "env \<Rightarrow> world \<Rightarrow> error + path" where
  "find_project_root e w = find_project_root_from w (cwd e)"

text \<open>
  \<^verbatim>\<open>execute_command\<close>: the command is recorded; when it exits non-zero the script
  exits with status 1.
\<close>

definition execute_command :: "env \<Rightarrow> world \<Rightarrow> string list \<Rightarrow> error option \<times> world" where
  "execute_command e w command =
     (let w' = w\<lparr>commands := commands w @ [command]\<rparr>
      in if command_ok e command then (None, w') else (Some Exit1, w'))"

text \<open>The loop of lines 282 to 285: each descriptor is converted in place.\<close>

fun convert_all :: "env \<Rightarrow> world \<Rightarrow> path list \<Rightarrow> error option \<times> world" where
  "convert_all e w [] = (None, w)"
| "convert_all e w (plist_path # ps) =
     (case files w plist_path of
        None \<Rightarrow> (Some CalledProcessError, w)
      | Some text \<Rightarrow>
          (case plutil e text of
             None \<Rightarrow> (Some CalledProcessError, w)
           | Some xml \<Rightarrow> convert_all e (write_file w plist_path xml) ps))"

text \<open>The loop of lines 334 and 335.\<close>

fun set_versions_all ::
  "world \<Rightarrow> path list \<Rightarrow> string \<Rightarrow> string \<Rightarrow> string \<Rightarrow> error option \<times> world" where
  "set_versions_all w [] r b1 b4 = (None, w)"
| "set_versions_all w (plist_path # ps) r b1 b4 =
     (case set_versions w plist_path r b1 b4 of
        Inl e \<Rightarrow> (Some e, w)
      | Inr w' \<Rightarrow> set_versions_all w' ps r b1 b4)"

definition untracked :: error where
  "untracked = Fail ''Git repository has untracked files.''"

text \<open>Lines 340 to 363: stage, commit and tag.\<close>

definition git_steps :: "env \<Rightarrow> world \<Rightarrow> string \<Rightarrow> error option \<times> world" where
  "git_steps e w new_build_version_4 =
     (case execute_command e w [''git'', ''add'', ''.''] of
        (Some err, w1) \<Rightarrow> (Some err, w1)
      | (None, w1) \<Rightarrow>
     (case commit_message (internal e) (beta e) (nightly e) (today e) new_build_version_4 of
        Inl err \<Rightarrow> (Some err, w1)
      | Inr message \<Rightarrow>
     (case execute_command e w1 [''git'', ''commit'', ''-m'', message] of
        (Some err, w2) \<Rightarrow> (Some err, w2)
      | (None, w2) \<Rightarrow>
          execute_command e w2
            [''git'', ''tag'', tag_name (internal e) (beta e) (nightly e) new_build_version_4])))"

text \<open>
  The script's main block.  The result is the error the run ends with (none when it exits
  with status 0) and the file system and commands at exit.
\<close>

definition main :: "env \<Rightarrow> world \<Rightarrow> error option \<times> world" where
  "main e w =
     (case find_project_root e w of
        Inl err \<Rightarrow> (Some err, w)
      | Inr project_root_path \<Rightarrow>
     (let main_plist_path = project_root_path @ [''Signal'', ''Signal-Info.plist''];
          sae_plist_path = project_root_path @ [''SignalShareExtension'', ''Info.plist''];
          nse_plist_path = project_root_path @ [''NotificationServiceExtension'', ''Info.plist'']
      in
      if \<not> path_exists w main_plist_path
      then (Some (Fail ''Could not find main app info .plist''), w)
      else if \<not> path_exists w sae_plist_path
      then (Some (Fail ''Could not find share extension info .plist''), w)
      else if \<not> path_exists w nse_plist_path
      then (Some (Fail ''Could not find NSE info .plist''), w)
      else
     (case git_status e of
        None \<Rightarrow> (Some CalledProcessError, w)
      | Some output \<Rightarrow>
      if length (strip output) > 0 then (Some untracked, w)
      else
     (case git_diff e of
        None \<Rightarrow> (Some CalledProcessError, w)
      | Some output \<Rightarrow>
      if length (strip output) > 0 then (Some untracked, w)
      else
     (let plist_paths = [main_plist_path, sae_plist_path, nse_plist_path]
      in
     (case convert_all e w plist_paths of
        (Some err, w1) \<Rightarrow> (Some err, w1)
      | (None, w1) \<Rightarrow>
     (case get_versions w1 main_plist_path of
        Inl err \<Rightarrow> (Some err, w1)
      | Inr (old_release_version, old_build_version_1) \<Rightarrow>
     (case version_policy old_release_version old_build_version_1 (version e) of
        Inl err \<Rightarrow> (Some err, w1)
      | Inr (new_release_version_3, new_build_version_1, new_build_version_4) \<Rightarrow>
     (case set_versions_all w1 plist_paths (formatted3 new_release_version_3)
             (formatted1 new_build_version_1) (formatted4 new_build_version_4) of
        (Some err, w2) \<Rightarrow> (Some err, w2)
      | (None, w2) \<Rightarrow> git_steps e w2 (formatted4 new_build_version_4))))))))))"

subsection \<open>Predicates of the specification\<close>

text \<open>
  A canonical component: decimal digits with no leading zero, or exactly \<^verbatim>\<open>0\<close>.
\<close>

definition canonical :: "string \<Rightarrow> bool" where
  "canonical s = (s \<noteq> [] \<and> list_all is_digit s \<and> (s = ''0'' \<or> hd s \<noteq> CHR ''0''))"

text \<open>A component with a leading zero: digits, more than one, the first of them \<^verbatim>\<open>0\<close>.\<close>

definition leading_zero :: "string \<Rightarrow> bool" where
  "leading_zero s = (list_all is_digit s \<and> 1 < length s \<and> hd s = CHR ''0'')"

definition digits :: "string \<Rightarrow> bool" where
  "digits s = (s \<noteq> [] \<and> list_all is_digit s)"

text \<open>
  A descriptor is rewritten between two states of the file system when its content in
  the second is its content in the first with the three values replaced, and untouched
  when its content is the same in both.
\<close>

definition rewritten :: "world \<Rightarrow> world \<Rightarrow> string \<Rightarrow> string \<Rightarrow> string \<Rightarrow> path \<Rightarrow> bool" where
  "rewritten w w' r b1 b4 p =
     (case files w p of
        None \<Rightarrow> False
      | Some text \<Rightarrow>
          (case rewrite_text text r b1 b4 of
             Inl e \<Rightarrow> False
           | Inr text' \<Rightarrow> files w' p = Some text'))"

definition untouched :: "world \<Rightarrow> world \<Rightarrow> path \<Rightarrow> bool" where
  "untouched w w' p = (files w' p = files w p)"

subsection \<open>Example runs\<close>

definition example_plist :: string where
  "example_plist =
     ''<key>CFBundleShortVersionString</key><string>5.19.0</string><key>CFBundleVersion</key><string>42</string><key>OWSBundleVersion4</key><string>5.19.0.42</string>''"

text \<open>A descriptor without the \<^verbatim>\<open>OWSBundleVersion4\<close> key.\<close>

definition example_plist_short :: string where
  "example_plist_short =
     ''<key>CFBundleShortVersionString</key><string>5.19.0</string><key>CFBundleVersion</key><string>42</string>''"

text \<open>
  A repository at \<^verbatim>\<open>/repo\<close> with the three descriptors; the argument is the content of
  the share extension's descriptor.
\<close>

definition example_world :: "string \<Rightarrow> world" where
  "example_world sae_text =
     \<lparr>files = [[''repo'', ''Signal'', ''Signal-Info.plist''] \<mapsto> example_plist,
               [''repo'', ''SignalShareExtension'', ''Info.plist''] \<mapsto> sae_text,
               [''repo'', ''NotificationServiceExtension'', ''Info.plist''] \<mapsto> example_plist],
      dirs = {[''repo''], [''repo'', ''.git'']},
      commands = []\<rparr>"

text \<open>
  A run without options in that repository; the argument is what
  \<^verbatim>\<open>git status --porcelain\<close> prints.
\<close>

definition example_env :: "string \<Rightarrow> env" where
  "example_env status_output =
     \<lparr>cwd = [''repo''], version = None, internal = False, nightly = False, beta = False,
      git_status = Some status_output, git_diff = Some [], plutil = Some,
      command_ok = (\<lambda>command. True), today = \<lparr>year = 2024, month = 1, day = 15\<rparr>\<rparr>"

text \<open>
  A run with the target 6.0.0 and the nightly flag, in a clean working tree, on 2024-01-15.
\<close>

definition example_env_nightly :: env where
  "example_env_nightly =
     \<lparr>cwd = [''repo''], version = Some ''6.0.0'', internal = False, nightly = True, beta = False,
      git_status = Some [], git_diff = Some [], plutil = Some,
      command_ok = (\<lambda>command. True), today = \<lparr>year = 2024, month = 1, day = 15\<rparr>\<rparr>"


section \<open>Lemmas\<close>

subsection \<open>Decimal digits\<close>

lemma digit_cases: "(d::nat) < 10 \<Longrightarrow> d = 0 \<or> d = 1 \<or> d = 2 \<or> d = 3 \<or> d = 4 \<or> d = 5 \<or> d = 6 \<or> d = 7 \<or> d = 8 \<or> d = 9"
  by arith

lemma digit_char_simps:
  "digit_char 0 = CHR ''0''" "digit_char 1 = CHR ''1''" "digit_char 2 = CHR ''2''"
  "digit_char 3 = CHR ''3''" "digit_char 4 = CHR ''4''" "digit_char 5 = CHR ''5''"
  "digit_char 6 = CHR ''6''" "digit_char 7 = CHR ''7''" "digit_char 8 = CHR ''8''"
  "digit_char 9 = CHR ''9''" "digit_char (Suc 0) = CHR ''1''"
  unfolding digit_char_def by code_simp+

lemma digit_val_simps:
  "digit_val CHR ''0'' = 0" "digit_val CHR ''1'' = 1" "digit_val CHR ''2'' = 2"
  "digit_val CHR ''3'' = 3" "digit_val CHR ''4'' = 4" "digit_val CHR ''5'' = 5"
  "digit_val CHR ''6'' = 6" "digit_val CHR ''7'' = 7" "digit_val CHR ''8'' = 8"
  "digit_val CHR ''9'' = 9"
  unfolding digit_val_def by simp_all

lemma digit_char_inverse: "d < 10 \<Longrightarrow> digit_val (digit_char d) = d"
  using digit_cases [of d] by (auto simp: digit_char_simps digit_val_simps)

lemma is_digit_digit_char: "d < 10 \<Longrightarrow> is_digit (digit_char d)"
  using digit_cases [of d] by (auto simp: digit_char_simps is_digit_def)

lemma digit_val_inverse: "is_digit c \<Longrightarrow> digit_char (digit_val c) = c"
  by (auto simp: is_digit_def digit_char_simps digit_val_simps)

lemma digit_val_less: "is_digit c \<Longrightarrow> digit_val c < 10"
  by (auto simp: is_digit_def digit_val_simps)

lemma digit_not_space: "is_digit c \<Longrightarrow> \<not> is_space c"
  by (auto simp: is_digit_def is_space_def)

lemma digit_val_0: "is_digit c \<Longrightarrow> digit_val c = 0 \<longleftrightarrow> c = CHR ''0''"
  by (auto simp: is_digit_def digit_val_simps)

lemma digit_char_eq_0: "d < 10 \<Longrightarrow> digit_char d = CHR ''0'' \<longleftrightarrow> d = 0"
  using digit_cases [of d] by (auto simp: digit_char_simps)

lemma str_nat_digits: "list_all is_digit (str_nat n)"
  by (induction n rule: str_nat.induct) (subst str_nat.simps, simp add: is_digit_digit_char)

lemma str_nat_nonempty: "str_nat n \<noteq> []"
  by (subst str_nat.simps) simp

lemma nat_of_digits_snoc: "nat_of_digits (s @ [c]) = 10 * nat_of_digits s + digit_val c"
  by (simp add: nat_of_digits_def)

lemma nat_of_digits_str_nat: "nat_of_digits (str_nat n) = n"
proof (induction n rule: str_nat.induct)
  case (1 n)
  show ?case
  proof (cases "n < 10")
    case True
    then show ?thesis
      by (subst str_nat.simps) (simp add: nat_of_digits_def digit_char_inverse)
  next
    case False
    with 1 show ?thesis
      by (subst str_nat.simps) (simp add: nat_of_digits_snoc digit_char_inverse)
  qed
qed

lemma hd_str_nat: "0 < n \<Longrightarrow> hd (str_nat n) \<noteq> CHR ''0''"
proof (induction n rule: str_nat.induct)
  case (1 n)
  show ?case
  proof (cases "n < 10")
    case True
    with 1(2) show ?thesis
      by (subst str_nat.simps) (simp add: digit_char_eq_0)
  next
    case False
    then have "0 < n div 10" by simp
    with 1(1) False have "hd (str_nat (n div 10)) \<noteq> CHR ''0''" by simp
    with False show ?thesis
      by (subst str_nat.simps) (simp add: str_nat_nonempty)
  qed
qed

lemma str_nat_0: "str_nat 0 = ''0''"
  by (subst str_nat.simps) (simp add: digit_char_simps)

lemma canonical_str_nat: "canonical (str_nat n)"
  by (cases "n = 0") (simp_all add: canonical_def str_nat_0 str_nat_digits str_nat_nonempty hd_str_nat is_digit_def)

lemma nat_of_digits_pos: "list_all is_digit s \<Longrightarrow> s \<noteq> [] \<Longrightarrow> hd s \<noteq> CHR ''0'' \<Longrightarrow> 0 < nat_of_digits s"
proof (induction s rule: rev_induct)
  case Nil
  then show ?case by simp
next
  case (snoc c s)
  show ?case
  proof (cases "s = []")
    case True
    with snoc.prems show ?thesis
      by (auto simp: nat_of_digits_def is_digit_def digit_val_simps)
  next
    case False
    with snoc show ?thesis by (simp add: nat_of_digits_snoc)
  qed
qed

lemma str_nat_nat_of_digits: "canonical s \<Longrightarrow> str_nat (nat_of_digits s) = s"
proof (induction s rule: rev_induct)
  case Nil
  then show ?case by (simp add: canonical_def)
next
  case (snoc c s)
  then have c: "is_digit c" by (simp add: canonical_def)
  show ?case
  proof (cases "s = []")
    case True
    with c show ?thesis
      by (subst str_nat.simps) (simp add: nat_of_digits_def digit_val_less digit_val_inverse)
  next
    case False
    with snoc.prems have hd: "hd s \<noteq> CHR ''0''" and ds: "list_all is_digit s"
      by (auto simp: canonical_def)
    with False have can: "canonical s" by (simp add: canonical_def)
    from nat_of_digits_pos [OF ds False hd] have pos: "0 < nat_of_digits s" .
    have dv: "digit_val c < 10" using c by (rule digit_val_less)
    from pos dv have ge: "\<not> 10 * nat_of_digits s + digit_val c < 10" by simp
    from dv have d1: "(10 * nat_of_digits s + digit_val c) div 10 = nat_of_digits s" by simp
    from dv have d2: "(10 * nat_of_digits s + digit_val c) mod 10 = digit_val c" by simp
    show ?thesis
      unfolding nat_of_digits_snoc
      by (subst str_nat.simps) (simp only: ge d1 d2 if_False snoc.IH [OF can] digit_val_inverse [OF c])
  qed
qed

subsection \<open>The matcher on forced and greedy repetitions\<close>

lemma star_forced:
  assumes rej: "\<And>x xs q. cmem c x \<Longrightarrow> rmatch p q (x # xs) = None"
  shows "rmatch (Star c # p) pos s =
         rmatch p (pos + length (takeWhile (cmem c) s)) (dropWhile (cmem c) s)"
proof (induction s arbitrary: pos)
  case Nil
  show ?case by simp
next
  case (Cons x xs)
  show ?case
  proof (cases "cmem c x")
    case True
    show ?thesis
    proof (cases "rmatch p (Suc pos + length (takeWhile (cmem c) xs)) (dropWhile (cmem c) xs)")
      case None
      with True Cons [of "Suc pos"] rej [OF True] show ?thesis by simp
    next
      case (Some m)
      with True Cons [of "Suc pos"] show ?thesis by simp
    qed
  next
    case False
    then show ?thesis by simp
  qed
qed

lemma plus_forced:
  assumes rej: "\<And>x xs q. cmem c x \<Longrightarrow> rmatch p q (x # xs) = None"
  shows "rmatch (Plus c # p) pos s =
         (if takeWhile (cmem c) s = [] then None
          else rmatch p (pos + length (takeWhile (cmem c) s)) (dropWhile (cmem c) s))"
proof (cases s)
  case Nil
  then show ?thesis by simp
next
  case (Cons x xs)
  then show ?thesis
    using star_forced [of c p "Suc pos" xs, OF rej] by simp
qed

lemma star_greedy:
  "rmatch p (pos + length (takeWhile (cmem c) s)) (dropWhile (cmem c) s) = Some m \<Longrightarrow>
   rmatch (Star c # p) pos s = Some m"
proof (induction s arbitrary: pos)
  case Nil
  then show ?case by simp
next
  case (Cons x xs)
  then show ?case by (cases "cmem c x") auto
qed

lemma plus_greedy:
  "takeWhile (cmem c) s \<noteq> [] \<Longrightarrow>
   rmatch p (pos + length (takeWhile (cmem c) s)) (dropWhile (cmem c) s) = Some m \<Longrightarrow>
   rmatch (Plus c # p) pos s = Some m"
  by (cases s) (auto split: if_splits intro: star_greedy)

lemma search_from_Bol: "search_from (Bol # p) (Suc pos) s = None"
  by (induction s arbitrary: pos) auto

lemma search_Bol: "search (Bol # p) s = rmatch p 0 s"
  by (cases s) (auto simp: search_def search_from_Bol split: option.splits)

lemma cmem_Digit: "cmem Digit = is_digit"
  by (rule ext) simp

lemma cmem_Space: "cmem Space = is_space"
  by (rule ext) simp

lemma takeWhile_run: "list_all P a \<Longrightarrow> \<not> P x \<Longrightarrow> takeWhile P (a @ x # r) = a"
  by (induction a) auto

lemma dropWhile_run: "list_all P a \<Longrightarrow> \<not> P x \<Longrightarrow> dropWhile P (a @ x # r) = x # r"
  by (induction a) auto

lemma takeWhile_all: "list_all P a \<Longrightarrow> takeWhile P a = a"
  by (induction a) auto

lemma dropWhile_all: "list_all P a \<Longrightarrow> dropWhile P a = []"
  by (induction a) auto

lemma rej_Str:
  "\<not> cmem c (hd l) \<Longrightarrow> l \<noteq> [] \<Longrightarrow> cmem c x \<Longrightarrow> rmatch (Str l # p) q (x # xs) = None"
  by (cases l) auto

lemma rej_GClose_Str:
  "\<not> cmem c (hd l) \<Longrightarrow> l \<noteq> [] \<Longrightarrow> cmem c x \<Longrightarrow> rmatch (GClose # Str l # p) q (x # xs) = None"
  by (cases l) auto

lemma rej_GClose_Eol:
  "cmem Digit x \<Longrightarrow> rmatch (GClose # Eol # p) q (x # xs) = None"
  by (auto simp: is_digit_def)

lemma plus_digit_gclose_dot:
  "rmatch (Plus Digit # GClose # Str ''.'' # p) pos s =
     (if takeWhile is_digit s = [] then None
      else rmatch (GClose # Str ''.'' # p) (pos + length (takeWhile is_digit s)) (dropWhile is_digit s))"
proof -
  have "rmatch (GClose # Str ''.'' # p) q (x # xs) = None" if "cmem Digit x" for x xs q
    using that by (auto simp: is_digit_def)
  from plus_forced [of Digit "GClose # Str ''.'' # p" pos s, OF this]
  show ?thesis unfolding cmem_Digit .
qed

lemma plus_digit_gclose_eol:
  "rmatch (Plus Digit # GClose # Eol # p) pos s =
     (if takeWhile is_digit s = [] then None
      else rmatch (GClose # Eol # p) (pos + length (takeWhile is_digit s)) (dropWhile is_digit s))"
proof -
  have "rmatch (GClose # Eol # p) q (x # xs) = None" if "cmem Digit x" for x xs q
    using that by (auto simp: is_digit_def)
  from plus_forced [of Digit "GClose # Eol # p" pos s, OF this]
  show ?thesis unfolding cmem_Digit .
qed

text \<open>what the 3-component pattern accepts\<close>
lemma search_version_3_iff:
  "search regex_version_3 s = Some m \<longleftrightarrow>
   (\<exists>a b c e. digits a \<and> digits b \<and> digits c \<and> (e = [] \<or> e = [CHR 0x0A]) \<and>
      s = a @ ''.'' @ b @ ''.'' @ c @ e \<and>
      m = [0, length a, length a + 1, length a + 1 + length b, length a + length b + 2,
           length a + length b + length c + 2])"
  (is "?l \<longleftrightarrow> ?r")
proof
  assume ?l
  define a where "a = takeWhile is_digit s"
  define s1 where "s1 = dropWhile is_digit s"
  define b where "b = takeWhile is_digit (drop 1 s1)"
  define s2 where "s2 = dropWhile is_digit (drop 1 s1)"
  define c where "c = takeWhile is_digit (drop 1 s2)"
  define e where "e = dropWhile is_digit (drop 1 s2)"
  have s: "s = a @ s1" by (simp add: a_def s1_def)
  have s1: "drop 1 s1 = b @ s2" by (simp add: b_def s2_def)
  have s2: "drop 1 s2 = c @ e" by (simp add: c_def e_def)
  from \<open>?l\<close> have *: "a \<noteq> []" "prefix ''.'' s1" "b \<noteq> []" "prefix ''.'' s2" "c \<noteq> []"
     "e = [] \<or> e = [CHR 0x0A]"
    and m: "m = [0, length a, length a + 1, length a + 1 + length b, length a + length b + 2,
           length a + length b + length c + 2]"
    unfolding regex_version_3_def search_Bol a_def s1_def b_def s2_def c_def e_def
    by (auto simp: plus_digit_gclose_dot plus_digit_gclose_eol split: if_splits)
  from *(2) s1 have s1': "s1 = ''.'' @ b @ s2" by (cases s1) auto
  from *(4) s2 have s2': "s2 = ''.'' @ c @ e" by (cases s2) auto
  have "list_all is_digit a" "list_all is_digit b" "list_all is_digit c"
    unfolding a_def b_def c_def list_all_iff by (auto dest: set_takeWhileD)
  with * have "digits a" "digits b" "digits c" by (simp_all add: digits_def)
  moreover have "s = a @ ''.'' @ b @ ''.'' @ c @ e" using s s1' s2' by simp
  ultimately show ?r using m *(6) by blast
next
  assume ?r
  then obtain a b c e where d: "digits a" "digits b" "digits c" and e: "e = [] \<or> e = [CHR 0x0A]"
    and s: "s = a @ ''.'' @ b @ ''.'' @ c @ e"
    and m: "m = [0, length a, length a + 1, length a + 1 + length b, length a + length b + 2,
           length a + length b + length c + 2]" by blast
  have nd: "\<not> is_digit CHR ''.''" "\<not> is_digit CHR 0x0A" by (simp_all add: is_digit_def)
  from d have tw: "takeWhile is_digit (a @ CHR ''.'' # r) = a" "dropWhile is_digit (a @ CHR ''.'' # r) = CHR ''.'' # r"
      "takeWhile is_digit (b @ CHR ''.'' # r) = b" "dropWhile is_digit (b @ CHR ''.'' # r) = CHR ''.'' # r"
      "takeWhile is_digit (c @ e) = c" "dropWhile is_digit (c @ e) = e" for r
    using e by (auto simp: digits_def takeWhile_run dropWhile_run nd takeWhile_all dropWhile_all)
  from d have ne: "a \<noteq> []" "b \<noteq> []" "c \<noteq> []" by (simp_all add: digits_def)
  show ?l
    unfolding regex_version_3_def search_Bol s m using e ne
    by (auto simp: plus_digit_gclose_dot plus_digit_gclose_eol tw)
qed

subsection \<open>Parsing\<close>

lemma strip_id: "s \<noteq> [] \<Longrightarrow> \<not> is_space (hd s) \<Longrightarrow> \<not> is_space (last s) \<Longrightarrow> strip s = s"
proof -
  assume a: "s \<noteq> []" "\<not> is_space (hd s)" "\<not> is_space (last s)"
  then have 1: "dropWhile is_space s = s" by (cases s) auto
  from a have "dropWhile is_space (rev s) = rev s" by (cases "rev s") (auto simp: hd_rev)
  with 1 show ?thesis by (simp add: strip_def)
qed

lemma digits_hd_last: "digits s \<Longrightarrow> is_digit (hd s) \<and> is_digit (last s)"
  by (cases s) (auto simp: digits_def list_all_iff)

lemma strip_digits: "digits s \<Longrightarrow> strip s = s"
proof -
  assume d: "digits s"
  from digits_hd_last [OF d] have "\<not> is_space (hd s)" "\<not> is_space (last s)"
    by (simp_all add: digit_not_space)
  moreover from d have "s \<noteq> []" by (simp add: digits_def)
  ultimately show ?thesis by (simp add: strip_id)
qed

lemma py_int_digits: "digits s \<Longrightarrow> py_int s = Inr (int (nat_of_digits s))"
proof -
  assume d: "digits s"
  then obtain c r where s: "s = c # r" by (cases s) (auto simp: digits_def)
  with d have "is_digit c" by (simp add: digits_def)
  then have "c \<noteq> CHR ''-''" "c \<noteq> CHR ''+''" by (auto simp: is_digit_def)
  with d s show ?thesis
    unfolding py_int_def strip_digits [OF d] by (simp add: digits_def)
qed

lemma str_int_nat: "str_int (int n) = str_nat n"
  by (simp add: str_int_def)

lemma digits_str_nat: "digits (str_nat n)"
  by (simp add: digits_def str_nat_digits str_nat_nonempty)

lemma canonical_digits: "canonical s \<Longrightarrow> digits s"
  by (simp add: canonical_def digits_def)

lemma canonical_iff: "digits s \<Longrightarrow> canonical s \<longleftrightarrow> str_nat (nat_of_digits s) = s"
  using canonical_str_nat [of "nat_of_digits s"] by (auto simp: str_nat_nat_of_digits)

lemma dotted_inject:
  assumes "list_all is_digit a" "list_all is_digit a'"
    and "a @ CHR ''.'' # r = a' @ CHR ''.'' # r'"
  shows "a = a' \<and> r = r'"
proof -
  have nd: "\<not> is_digit CHR ''.''" by (simp add: is_digit_def)
  have "takeWhile is_digit (a @ CHR ''.'' # r) = a" "takeWhile is_digit (a' @ CHR ''.'' # r') = a'"
    using assms(1,2) nd by (simp_all add: takeWhile_run)
  with assms(3) have "a = a'" by simp
  with assms(3) show ?thesis by simp
qed

lemma dotted3_inject:
  assumes "digits a" "digits b" "digits c" "digits a'" "digits b'" "digits c'"
    and eq: "a @ CHR ''.'' # b @ CHR ''.'' # c @ e = a' @ CHR ''.'' # b' @ CHR ''.'' # c'"
    and "e = [] \<or> e = [CHR 0x0A]"
  shows "a = a' \<and> b = b' \<and> c = c' \<and> e = []"
proof -
  have da: "list_all is_digit a" "list_all is_digit a'" "list_all is_digit b" "list_all is_digit b'"
    using assms(1,2,4,5) by (simp_all add: digits_def)
  from dotted_inject [OF da(1,2) eq] have 1: "a = a'" "b @ CHR ''.'' # c @ e = b' @ CHR ''.'' # c'"
    by simp_all
  from dotted_inject [OF da(3,4) 1(2)] have 2: "b = b'" "c @ e = c'" by simp_all
  have "e = []"
  proof (rule ccontr)
    assume "e \<noteq> []"
    with assms(8) have "e = [CHR 0x0A]" by simp
    with 2(2) have "CHR 0x0A \<in> set c'" by auto
    moreover have "\<not> is_digit (CHR 0x0A)" by (simp add: is_digit_def)
    ultimately show False using assms(6) by (auto simp: digits_def list_all_iff)
  qed
  with 1 2 show ?thesis by simp
qed

lemma slice_0: "slice (a @ r) 0 (length a) = a"
  by (simp add: slice_def)

lemma slice_1: "slice (a @ x # b @ r) (length a + 1) (length a + 1 + length b) = b"
  by (simp add: slice_def)

lemma slice_2:
  "slice (a @ x # b @ y # c @ r) (length a + length b + 2) (length a + length b + length c + 2) = c"
proof -
  have "drop (length a + length b + 2) (a @ x # b @ y # c @ r) = c @ r"
    by simp
  then show ?thesis by (simp add: slice_def)
qed

lemma search_version_3_dotted:
  assumes "digits a" "digits b" "digits c" "e = [] \<or> e = [CHR 0x0A]"
  shows "search regex_version_3 (a @ CHR ''.'' # b @ CHR ''.'' # c @ e) =
     Some [0, length a, length a + 1, length a + 1 + length b, length a + length b + 2,
           length a + length b + length c + 2]"
proof -
  have "a @ CHR ''.'' # b @ CHR ''.'' # c @ e = a @ ''.'' @ b @ ''.'' @ c @ e" by simp
  with assms show ?thesis unfolding search_version_3_iff by blast
qed

lemma groups_dotted:
  "groups (a @ CHR ''.'' # b @ CHR ''.'' # c @ e)
     [0, length a, length a + 1, length a + 1 + length b, length a + length b + 2,
      length a + length b + length c + 2] = [a, b, c]"
  using slice_0 [of a "CHR ''.'' # b @ CHR ''.'' # c @ e"]
    slice_1 [of a "CHR ''.''" b "CHR ''.'' # c @ e"]
    slice_2 [of a "CHR ''.''" b "CHR ''.''" c e]
  by (simp only: groups.simps)

lemma formatted3_nat:
  "formatted3 (Version3 (int x) (int y) (int z)) =
     str_nat x @ CHR ''.'' # str_nat y @ CHR ''.'' # str_nat z"
  by (simp add: str_int_nat)

lemma parse_version_3_dotted:
  assumes d: "digits a" "digits b" "digits c" and e: "e = [] \<or> e = [CHR 0x0A]"
  shows "parse_version_3 (a @ CHR ''.'' # b @ CHR ''.'' # c @ e) =
     (if canonical a \<and> canonical b \<and> canonical c \<and> e = []
      then Inr (Version3 (int (nat_of_digits a)) (int (nat_of_digits b)) (int (nat_of_digits c)))
      else Inl could_not_parse)"
proof -
  let ?s = "a @ CHR ''.'' # b @ CHR ''.'' # c @ e"
  let ?v = "Version3 (int (nat_of_digits a)) (int (nat_of_digits b)) (int (nat_of_digits c))"
  have eq: "formatted3 ?v = ?s \<longleftrightarrow> canonical a \<and> canonical b \<and> canonical c \<and> e = []"
  proof
    assume "formatted3 ?v = ?s"
    then have "a @ CHR ''.'' # b @ CHR ''.'' # c @ e =
       str_nat (nat_of_digits a) @ CHR ''.'' # str_nat (nat_of_digits b) @ CHR ''.'' # str_nat (nat_of_digits c)"
      unfolding formatted3_nat by simp
    from dotted3_inject [OF d digits_str_nat digits_str_nat digits_str_nat this e]
    show "canonical a \<and> canonical b \<and> canonical c \<and> e = []"
      using d by (simp add: canonical_iff)
  next
    assume "canonical a \<and> canonical b \<and> canonical c \<and> e = []"
    then show "formatted3 ?v = ?s" unfolding formatted3_nat by (simp add: str_nat_nat_of_digits)
  qed
  have "parse_version_3 ?s = (if formatted3 ?v \<noteq> ?s then Inl could_not_parse else Inr ?v)"
    unfolding parse_version_3_def search_version_3_dotted [OF d e]
    by (simp only: groups_dotted option.case list.case py_int_digits [OF d(1)] py_int_digits [OF d(2)]
          py_int_digits [OF d(3)] sum.case Let_def)
  then show ?thesis using eq by auto
qed

lemma parse_version_3_cases:
  "parse_version_3 s = Inl could_not_parse \<or>
   (\<exists>a b c. canonical a \<and> canonical b \<and> canonical c \<and> s = a @ CHR ''.'' # b @ CHR ''.'' # c \<and>
      parse_version_3 s =
        Inr (Version3 (int (nat_of_digits a)) (int (nat_of_digits b)) (int (nat_of_digits c))))"
proof (cases "search regex_version_3 s")
  case None
  then show ?thesis by (simp add: parse_version_3_def)
next
  case (Some m)
  then obtain a b c e where d: "digits a" "digits b" "digits c" and e: "e = [] \<or> e = [CHR 0x0A]"
    and s: "s = a @ CHR ''.'' # b @ CHR ''.'' # c @ e"
    unfolding search_version_3_iff by auto
  show ?thesis
  proof (cases "canonical a \<and> canonical b \<and> canonical c \<and> e = []")
    case True
    with parse_version_3_dotted [OF d e] s show ?thesis by auto
  next
    case False
    with parse_version_3_dotted [OF d e] s show ?thesis by simp
  qed
qed

lemma parse_version_1_digits:
  assumes d: "digits s"
  shows "parse_version_1 s =
     (if canonical s then Inr (Version1 (int (nat_of_digits s))) else Inl could_not_parse)"
  unfolding parse_version_1_def py_int_digits [OF d]
  using canonical_iff [OF d] by (simp add: str_int_nat)

lemma leading_zero_not_canonical: "leading_zero s \<Longrightarrow> \<not> canonical s"
  by (auto simp: leading_zero_def canonical_def)

lemma leading_zero_digits: "leading_zero s \<Longrightarrow> digits s"
  by (auto simp: leading_zero_def digits_def)

lemma canonical_dotted_strip:
  assumes "canonical a" "canonical c"
  shows "strip (a @ CHR ''.'' # b @ CHR ''.'' # c) = a @ CHR ''.'' # b @ CHR ''.'' # c"
proof -
  from assms have "digits a" "digits c" by (simp_all add: canonical_digits)
  then have "is_digit (hd a)" "is_digit (last c)" "a \<noteq> []" "c \<noteq> []"
    using digits_hd_last by (auto simp: digits_def)
  then show ?thesis
    by (intro strip_id) (simp_all add: digit_not_space)
qed

lemma parse_version_3_strip: "parse_version_3 s = Inr v \<Longrightarrow> strip s = s"
  using parse_version_3_cases [of s] by (auto simp: canonical_dotted_strip)


lemma parse_version_3_empty: "parse_version_3 [] = Inl could_not_parse"
  using parse_version_3_cases [of "[]"] by auto

lemma parse_version_3_error: "parse_version_3 s = Inl e \<Longrightarrow> e = could_not_parse"
  using parse_version_3_cases [of s] by auto

lemma rmatch_version_4_dotted:
  assumes d: "digits a" "digits b" "digits c" "digits d"
  shows "search regex_version_4 (a @ CHR ''.'' # b @ CHR ''.'' # c @ CHR ''.'' # d) \<noteq> None"
proof -
  have nd: "\<not> is_digit CHR ''.''" by (simp add: is_digit_def)
  from d have ne: "a \<noteq> []" "b \<noteq> []" "c \<noteq> []" "d \<noteq> []"
    and la: "list_all is_digit a" "list_all is_digit b" "list_all is_digit c" "list_all is_digit d"
    by (simp_all add: digits_def)
  have tw: "takeWhile is_digit (a @ CHR ''.'' # r) = a" "dropWhile is_digit (a @ CHR ''.'' # r) = CHR ''.'' # r"
      "takeWhile is_digit (b @ CHR ''.'' # r) = b" "dropWhile is_digit (b @ CHR ''.'' # r) = CHR ''.'' # r"
      "takeWhile is_digit (c @ CHR ''.'' # r) = c" "dropWhile is_digit (c @ CHR ''.'' # r) = CHR ''.'' # r"
      "takeWhile is_digit d = d" "dropWhile is_digit d = []" for r
    using la nd by (simp_all add: takeWhile_run dropWhile_run takeWhile_all dropWhile_all)
  have last: "rmatch [GClose, One AnyButNewline, GOpen, Plus Digit, GClose, Eol] q (CHR ''.'' # d) =
      Some [q, Suc q, Suc q + length d]" for q
    using ne(4) by (simp add: plus_digit_gclose_eol tw)
  have third: "rmatch [Plus Digit, GClose, One AnyButNewline, GOpen, Plus Digit, GClose, Eol] q (c @ CHR ''.'' # d) =
      Some [q + length c, Suc (q + length c), Suc (q + length c) + length d]" for q
    by (rule plus_greedy) (simp_all only: cmem_Digit tw ne last not_False_eq_True)
  show ?thesis
    unfolding regex_version_4_def search_Bol using ne
    by (simp add: plus_digit_gclose_dot tw third)
qed

subsection \<open>The stages of a run\<close>

lemma find_project_root_from_error:
  "find_project_root_from w p = Inl err \<Longrightarrow> err = Fail ''Could not find project root path''"
proof (induction w p rule: find_project_root_from.induct)
  case (1 w path)
  then show ?case
    by (subst (asm) (2) find_project_root_from.simps) (auto split: if_splits)
qed

lemma convert_all_error:
  "convert_all e w ps = (Some err, w') \<Longrightarrow> err = CalledProcessError"
  by (induction ps arbitrary: w) (auto split: option.splits)

lemma execute_command_files: "execute_command e w c = (res, w') \<Longrightarrow> files w' = files w"
  by (auto simp: execute_command_def Let_def split: if_splits)

lemma execute_command_error: "execute_command e w c = (Some err, w') \<Longrightarrow> err = Exit1"
  by (auto simp: execute_command_def Let_def split: if_splits)

lemma commit_message_error:
  "commit_message i b n d v = Inl err \<Longrightarrow> err = ValueError"
  by (auto simp: commit_message_def strftime_mdY_def split: if_splits sum.splits)

lemma git_steps_files: "git_steps e w v = (res, w') \<Longrightarrow> files w' = files w"
  unfolding git_steps_def
  by (auto split: prod.splits option.splits sum.splits dest!: execute_command_files)

lemma git_steps_error:
  "git_steps e w v = (Some err, w') \<Longrightarrow> err = Exit1 \<or> err = ValueError"
  unfolding git_steps_def
  by (auto split: prod.splits option.splits sum.splits
        dest: execute_command_error commit_message_error)

lemma set_versions_Inr:
  "set_versions w p r b1 b4 = Inr w' \<Longrightarrow>
   \<exists>t t'. files w p = Some t \<and> rewrite_text t r b1 b4 = Inr t' \<and> w' = write_file w p t'"
  by (auto simp: set_versions_def read_file_def split: if_splits option.splits sum.splits)

lemma rewritten_write:
  "files w p = Some t \<Longrightarrow> rewrite_text t r b1 b4 = Inr t' \<Longrightarrow>
   rewritten w (write_file w p t') r b1 b4 p"
  by (simp add: rewritten_def write_file_def)

lemma convert_all_commands: "convert_all e w ps = (res, w') \<Longrightarrow> commands w' = commands w"
  by (induction ps arbitrary: w) (auto simp: write_file_def split: option.splits)

lemma set_versions_commands: "set_versions w p r b1 b4 = Inr w' \<Longrightarrow> commands w' = commands w"
  by (auto dest!: set_versions_Inr simp: write_file_def)

lemma set_versions_all_commands:
  "set_versions_all w ps r b1 b4 = (res, w') \<Longrightarrow> commands w' = commands w"
  by (induction ps arbitrary: w) (auto split: sum.splits dest: set_versions_commands)

lemma git_steps_commands:
  assumes "git_steps e w v = (None, w')"
  shows "\<exists>message. commit_message (internal e) (beta e) (nightly e) (today e) v = Inr message \<and>
     commands w' = commands w @
       [[''git'', ''add'', ''.''], [''git'', ''commit'', ''-m'', message],
        [''git'', ''tag'', tag_name (internal e) (beta e) (nightly e) v]]"
  using assms unfolding git_steps_def execute_command_def Let_def
  by (auto split: if_splits sum.splits)

lemma set_versions_all_fails:
  assumes d: "m \<noteq> s" "m \<noteq> n" "s \<noteq> n"
    and run: "set_versions_all w [m, s, n] r b1 b4 = (Some err, w')"
  shows "(set_versions w m r b1 b4 = Inl err \<and> w' = w) \<or>
     (\<exists>wm. set_versions w m r b1 b4 = Inr wm \<and>
        rewritten w w' r b1 b4 m \<and> untouched w w' n \<and>
        (w' = wm \<and> set_versions wm s r b1 b4 = Inl err \<and> untouched w w' s \<or>
         (\<exists>ws. w' = ws \<and> set_versions wm s r b1 b4 = Inr ws \<and>
            set_versions ws n r b1 b4 = Inl err \<and> rewritten w w' r b1 b4 s)))"
proof (cases "set_versions w m r b1 b4")
  case (Inl err')
  with run show ?thesis by simp
next
  case m: (Inr wm)
  from set_versions_Inr [OF m] obtain tm tm' where
    tm: "files w m = Some tm" "rewrite_text tm r b1 b4 = Inr tm'" "wm = write_file w m tm'"
    by blast
  have rm: "rewritten w wm r b1 b4 m" unfolding tm(3) using tm(1,2) by (rule rewritten_write)
  have um: "untouched w wm s" "untouched w wm n"
    using d by (simp_all add: untouched_def tm(3) write_file_def)
  show ?thesis
  proof (cases "set_versions wm s r b1 b4")
    case (Inl err')
    with run m have "err' = err" "w' = wm" by simp_all
    with Inl m rm um show ?thesis by simp
  next
    case s: (Inr ws)
    from set_versions_Inr [OF s] obtain ts ts' where
      ts: "files wm s = Some ts" "rewrite_text ts r b1 b4 = Inr ts'" "ws = write_file wm s ts'"
      by blast
    have fs: "files w s = Some ts" using ts(1) um(1) by (simp add: untouched_def)
    have rs: "rewritten w ws r b1 b4 s"
      using fs ts(2) by (simp add: rewritten_def ts(3) write_file_def)
    have rm': "rewritten w ws r b1 b4 m"
      using rm d by (simp add: rewritten_def ts(3) write_file_def split: option.splits sum.splits)
    have un: "untouched w ws n"
      using um(2) d by (simp add: untouched_def ts(3) write_file_def)
    show ?thesis
    proof (cases "set_versions ws n r b1 b4")
      case (Inl err')
      with run m s have "err' = err" "w' = ws" by simp_all
      with Inl m s rs rm' un show ?thesis by simp
    next
      case (Inr wn)
      with run m s show ?thesis by simp
    qed
  qed
qed

lemma dirty_aborts:
  assumes "(git_status e = Some out \<and> strip out \<noteq> []) \<or> (git_diff e = Some out \<and> strip out \<noteq> [])"
  shows "\<exists>err. main e w = (Some err, w)"
  using assms unfolding main_def Let_def
  by (auto split: sum.splits option.splits)

lemma dropWhile_keeps: "c \<in> set xs \<Longrightarrow> \<not> P c \<Longrightarrow> c \<in> set (dropWhile P xs)"
  by (induction xs) auto

lemma strip_visible:
  assumes "git_output out" "out \<noteq> []"
  shows "strip out \<noteq> []"
proof -
  from assms obtain c where c: "c \<in> set out" "\<not> is_space c"
    by (auto simp: git_output_def list_ex_iff)
  from dropWhile_keeps [of c out is_space] c
  have "c \<in> set (rev (dropWhile is_space out))" by simp
  from dropWhile_keeps [of c "rev (dropWhile is_space out)" is_space] this c(2)
  have "c \<in> set (strip out)" by (simp add: strip_def)
  then show ?thesis by auto
qed

lemma main_reaches_conversion:
  assumes run: "main e w = (res, w')"
    and res: "res = None \<or> res = Some could_not_parse"
  shows "\<exists>root w1.
     find_project_root e w = Inr root \<and>
     convert_all e w
       [root @ [''Signal'', ''Signal-Info.plist''],
        root @ [''SignalShareExtension'', ''Info.plist''],
        root @ [''NotificationServiceExtension'', ''Info.plist'']] = (None, w1) \<and>
     (case get_versions w1 (root @ [''Signal'', ''Signal-Info.plist'']) of
        Inl err \<Rightarrow> (Some err, w1)
      | Inr (old_release_version, old_build_version_1) \<Rightarrow>
     (case version_policy old_release_version old_build_version_1 (version e) of
        Inl err \<Rightarrow> (Some err, w1)
      | Inr (new_release_version_3, new_build_version_1, new_build_version_4) \<Rightarrow>
     (case set_versions_all w1
             [root @ [''Signal'', ''Signal-Info.plist''],
              root @ [''SignalShareExtension'', ''Info.plist''],
              root @ [''NotificationServiceExtension'', ''Info.plist'']]
             (formatted3 new_release_version_3)
             (formatted1 new_build_version_1) (formatted4 new_build_version_4) of
        (Some err, w2) \<Rightarrow> (Some err, w2)
      | (None, w2) \<Rightarrow> git_steps e w2 (formatted4 new_build_version_4)))) = (res, w')"
proof -
  have cnp: "res \<noteq> Some (Fail ''Could not find project root path'')"
    "res \<noteq> Some (Fail ''Could not find main app info .plist'')"
    "res \<noteq> Some (Fail ''Could not find share extension info .plist'')"
    "res \<noteq> Some (Fail ''Could not find NSE info .plist'')"
    "res \<noteq> Some untracked" "res \<noteq> Some CalledProcessError"
    using res by (auto simp: could_not_parse_def untracked_def)
  obtain root where root: "find_project_root e w = Inr root"
  proof (cases "find_project_root e w")
    case (Inl err)
    with run have "res = Some err" by (simp add: main_def)
    with Inl find_project_root_from_error [of w "cwd e" err] cnp(1) show ?thesis
      by (simp add: find_project_root_def)
  next
    case (Inr root)
    then show ?thesis by (rule that)
  qed
  let ?m = "root @ [''Signal'', ''Signal-Info.plist'']"
  let ?s = "root @ [''SignalShareExtension'', ''Info.plist'']"
  let ?n = "root @ [''NotificationServiceExtension'', ''Info.plist'']"
  obtain cres w1 where conv: "convert_all e w [?m, ?s, ?n] = (cres, w1)"
    by (cases "convert_all e w [?m, ?s, ?n]")
  from run root conv cnp have rest:
    "(case cres of Some err \<Rightarrow> (Some err, w1) | None \<Rightarrow>
       (case get_versions w1 ?m of
        Inl err \<Rightarrow> (Some err, w1)
      | Inr (old_release_version, old_build_version_1) \<Rightarrow>
     (case version_policy old_release_version old_build_version_1 (version e) of
        Inl err \<Rightarrow> (Some err, w1)
      | Inr (new_release_version_3, new_build_version_1, new_build_version_4) \<Rightarrow>
     (case set_versions_all w1 [?m, ?s, ?n] (formatted3 new_release_version_3)
             (formatted1 new_build_version_1) (formatted4 new_build_version_4) of
        (Some err, w2) \<Rightarrow> (Some err, w2)
      | (None, w2) \<Rightarrow> git_steps e w2 (formatted4 new_build_version_4))))) =
     (res, w')"
    unfolding main_def Let_def
    by (simp split: if_splits option.splits)
  have cres: "cres = None"
  proof (cases cres)
    case (Some err)
    with conv convert_all_error have "err = CalledProcessError" by blast
    with rest Some cnp show ?thesis by simp
  qed simp
  from rest have rest': "(case get_versions w1 ?m of
        Inl err \<Rightarrow> (Some err, w1)
      | Inr (old_release_version, old_build_version_1) \<Rightarrow>
     (case version_policy old_release_version old_build_version_1 (version e) of
        Inl err \<Rightarrow> (Some err, w1)
      | Inr (new_release_version_3, new_build_version_1, new_build_version_4) \<Rightarrow>
     (case set_versions_all w1 [?m, ?s, ?n] (formatted3 new_release_version_3)
             (formatted1 new_build_version_1) (formatted4 new_build_version_4) of
        (Some err, w2) \<Rightarrow> (Some err, w2)
      | (None, w2) \<Rightarrow> git_steps e w2 (formatted4 new_build_version_4)))) =
     (res, w')"
    unfolding cres by simp
  show ?thesis
    apply (rule exI [of _ root], rule exI [of _ w1])
    apply (intro conjI)
      apply (rule root)
     apply (rule conv [unfolded cres])
    apply (rule rest')
    done
qed

lemma policy_6_0_0:
  "version_policy old3 old1 (Some ''6.0.0'') = Inr (Version3 6 0 0, Version1 0, Version4 6 0 0 0)"
proof -
  have p: "parse_version_3 (strip ''6.0.0'') = Inr (Version3 6 0 0)" by code_simp
  show ?thesis by (simp add: version_policy_def p)
qed


subsection \<open>The patterns of a descriptor\<close>

lemma star_space_string:
  "rmatch (Star Space # Str ''<string>'' # p) pos s =
     rmatch (Str ''<string>'' # p) (pos + length (takeWhile is_space s)) (dropWhile is_space s)"
proof -
  have "rmatch (Str ''<string>'' # p) q (x # xs) = None" if "cmem Space x" for x xs q
    using that by (auto simp: is_space_def)
  from star_forced [of Space "Str ''<string>'' # p" pos s, OF this]
  show ?thesis unfolding cmem_Space .
qed

lemma plus_dd_close_string:
  "rmatch (Plus DigitOrDot # GClose # Str ''</string>'' # p) pos s =
     (if takeWhile (cmem DigitOrDot) s = [] then None
      else rmatch (GClose # Str ''</string>'' # p) (pos + length (takeWhile (cmem DigitOrDot) s))
             (dropWhile (cmem DigitOrDot) s))"
proof -
  have "rmatch (GClose # Str ''</string>'' # p) q (x # xs) = None" if "cmem DigitOrDot x" for x xs q
    using that by (auto simp: is_digit_def)
  from plus_forced [of DigitOrDot "GClose # Str ''</string>'' # p" pos s, OF this]
  show ?thesis .
qed

lemma prefix_drop: "prefix l s \<Longrightarrow> s = l @ drop (length l) s"
  by (auto simp: prefix_def)

lemma rmatch_file_regex_iff:
  "rmatch (file_regex K) pos u = Some m \<longleftrightarrow>
   (\<exists>ws v rest. u = K @ ws @ ''<string>'' @ v @ ''</string>'' @ rest \<and>
      list_all is_space ws \<and> v \<noteq> [] \<and> list_all (cmem DigitOrDot) v \<and>
      m = [pos + length K + length ws + 8, pos + length K + length ws + 8 + length v])"
  (is "?l \<longleftrightarrow> ?r")
proof
  assume l: ?l
  define u1 where "u1 = drop (length K) u"
  define ws where "ws = takeWhile is_space u1"
  define u2 where "u2 = dropWhile is_space u1"
  define u3 where "u3 = drop (length ''<string>'') u2"
  define v where "v = takeWhile (cmem DigitOrDot) u3"
  define u4 where "u4 = dropWhile (cmem DigitOrDot) u3"
  define rest where "rest = drop (length ''</string>'') u4"
  have nd: "\<not> cmem DigitOrDot CHR ''<''" "\<not> is_space CHR ''<''"
    by (simp_all add: is_digit_def is_space_def)
  from l have *: "prefix K u" "prefix ''<string>'' u2" "v \<noteq> []" "prefix ''</string>'' u4"
    and m: "m = [pos + length K + length ws + 8, pos + length K + length ws + 8 + length v]"
    unfolding file_regex_def u1_def ws_def u2_def u3_def v_def u4_def
    by (auto simp: star_space_string plus_dd_close_string eval_nat_numeral split: if_splits)
  have "u = K @ u1" using *(1) prefix_drop unfolding u1_def by blast
  moreover have "u1 = ws @ u2" by (simp add: ws_def u2_def)
  moreover have "u2 = ''<string>'' @ u3" using prefix_drop [OF *(2)] unfolding u3_def .
  moreover have "u3 = v @ u4" by (simp add: v_def u4_def)
  moreover have "u4 = ''</string>'' @ rest" using prefix_drop [OF *(4)] unfolding rest_def .
  ultimately have "u = K @ ws @ ''<string>'' @ v @ ''</string>'' @ rest" by simp
  moreover have "list_all is_space ws" "list_all (cmem DigitOrDot) v"
    unfolding ws_def v_def list_all_iff by (auto dest: set_takeWhileD)
  ultimately show ?r using *(3) m by blast
next
  assume ?r
  then obtain ws v rest where u: "u = K @ ws @ ''<string>'' @ v @ ''</string>'' @ rest"
    and ws: "list_all is_space ws" and v: "v \<noteq> []" "list_all (cmem DigitOrDot) v"
    and m: "m = [pos + length K + length ws + 8, pos + length K + length ws + 8 + length v]"
    by blast
  have nd: "\<not> cmem DigitOrDot CHR ''<''" "\<not> is_space CHR ''<''"
    by (simp_all add: is_digit_def is_space_def)
  have tw: "takeWhile is_space (ws @ CHR ''<'' # x) = ws"
    "dropWhile is_space (ws @ CHR ''<'' # x) = CHR ''<'' # x"
    "takeWhile (cmem DigitOrDot) (v @ CHR ''<'' # x) = v"
    "dropWhile (cmem DigitOrDot) (v @ CHR ''<'' # x) = CHR ''<'' # x" for x
    using ws v(2) nd by (simp_all add: takeWhile_run dropWhile_run)
  show ?l
    unfolding file_regex_def u m using v(1)
    by (simp add: star_space_string plus_dd_close_string tw eval_nat_numeral)
qed

lemma rmatch_shift:
  "Bol \<notin> set p \<Longrightarrow> rmatch p (pos + d) s = map_option (map (\<lambda>i. i + d)) (rmatch p pos s)"
proof (induction p pos s rule: rmatch.induct)
  case (2 l p pos s)
  then show ?case by (simp add: add.commute add.left_commute)
next
  case (6 c p pos x xs)
  then show ?case by (auto split: option.splits)
qed (auto simp: option.map_comp comp_def)

lemma search_from_shift:
  "Bol \<notin> set p \<Longrightarrow>
   search_from p (pos + d) s = map_option (map (\<lambda>i. i + d)) (search_from p pos s)"
proof (induction s arbitrary: pos)
  case Nil
  then show ?case by (simp add: rmatch_shift)
next
  case (Cons x xs)
  from Cons.IH [OF Cons.prems, of "Suc pos"] rmatch_shift [OF Cons.prems, of pos d "x # xs"]
  show ?case by (auto split: option.splits)
qed

lemma search_from_Some:
  "search_from p pos t = Some m \<Longrightarrow>
   \<exists>pre u. t = pre @ u \<and> rmatch p (pos + length pre) u = Some m"
proof (induction t arbitrary: pos)
  case Nil
  then show ?case by simp
next
  case (Cons x xs)
  show ?case
  proof (cases "rmatch p pos (x # xs)")
    case None
    with Cons.prems have "search_from p (Suc pos) xs = Some m" by simp
    from Cons.IH [OF this] obtain pre u where "xs = pre @ u" "rmatch p (Suc pos + length pre) u = Some m"
      by blast
    then have "x # xs = (x # pre) @ u \<and> rmatch p (pos + length (x # pre)) u = Some m" by simp
    then show ?thesis by blast
  next
    case (Some m')
    with Cons.prems have "x # xs = [] @ (x # xs) \<and> rmatch p (pos + length ([]::string)) (x # xs) = Some m"
      by simp
    then show ?thesis by blast
  qed
qed





subsection \<open>Where a value can start\<close>

lemma adjacent_in_append:
  assumes "xs @ ys = P @ a # b # Q"
  shows "(\<exists>Q'. xs = P @ a # b # Q') \<or> (xs = P @ [a] \<and> ys = b # Q) \<or>
         (\<exists>P'. P = xs @ P' \<and> ys = P' @ a # b # Q)"
proof -
  from assms consider us where "xs = P @ us" "us @ ys = a # b # Q"
    | us where "xs @ us = P" "ys = us @ a # b # Q"
    by (auto simp: append_eq_append_conv2)
  then show ?thesis
  proof cases
    case 1
    show ?thesis
    proof (cases us)
      case Nil
      with 1 show ?thesis by auto
    next
      case (Cons u us')
      note c1 = this
      show ?thesis
      proof (cases us')
        case Nil
        with 1 c1 show ?thesis by auto
      next
        case (Cons u' us'')
        with 1 c1 show ?thesis by auto
      qed
    qed
  next
    case 2
    then show ?thesis by auto
  qed
qed

lemma adjacent_in_zip: "K = P @ a # b # Q \<Longrightarrow> (a, b) \<in> set (zip K (tl K))"
proof (induction P arbitrary: K)
  case Nil
  then show ?case by simp
next
  case (Cons p P)
  let ?K' = "P @ a # b # Q"
  from Cons.IH [of ?K'] have "(a, b) \<in> set (zip ?K' (tl ?K'))" by simp
  moreover have "zip K (tl K) = (p, hd ?K') # zip ?K' (tl ?K')"
    using Cons.prems by (cases ?K') simp_all
  ultimately show ?case by simp
qed

lemma value_start_unique:
  assumes M: "K @ ws @ ''<string>'' @ v @ ''</string>'' = P @ CHR ''>'' # x # Q"
    and x: "cmem DigitOrDot x"
    and ws: "list_all is_space ws" and v: "list_all (cmem DigitOrDot) v"
    and K: "list_all (\<lambda>(a, b). \<not> (a = CHR ''>'' \<and> cmem DigitOrDot b)) (zip K (tl K))"
  shows "P @ ''>'' = K @ ws @ ''<string>''"
proof -
  have xs: "\<not> is_space x" "x \<noteq> CHR ''<''" "x \<notin> set ''<string>''" "x \<notin> set ''</string>''"
    using x by (auto simp: is_digit_def is_space_def)
  have gt: "\<not> is_space CHR ''>''" "\<not> cmem DigitOrDot CHR ''>''"
    by (simp_all add: is_space_def is_digit_def)
  from adjacent_in_append [OF M] consider
      (inK) Q' where "K = P @ CHR ''>'' # x # Q'"
    | (bK) "K = P @ ''>''" "ws @ ''<string>'' @ v @ ''</string>'' = x # Q"
    | (after) P1 where "P = K @ P1" "ws @ ''<string>'' @ v @ ''</string>'' = P1 @ CHR ''>'' # x # Q"
    by blast
  then show ?thesis
  proof cases
    case inK
    from adjacent_in_zip [OF this] K x show ?thesis by (auto simp: list_all_iff)
  next
    case bK
    then show ?thesis using ws xs by (cases ws) auto
  next
    case after
    from adjacent_in_append [OF after(2)] consider
        (inws) Q' where "ws = P1 @ CHR ''>'' # x # Q'"
      | (bws) "ws = P1 @ ''>''"
      | (after2) P2 where "P1 = ws @ P2" "''<string>'' @ v @ ''</string>'' = P2 @ CHR ''>'' # x # Q"
      by blast
    then show ?thesis
    proof cases
      case inws
      with ws gt show ?thesis by simp
    next
      case bws
      with ws gt show ?thesis by simp
    next
      case after2
      from adjacent_in_append [OF after2(2)] consider
          (inS) Q' where "''<string>'' = P2 @ CHR ''>'' # x # Q'"
        | (bS) "''<string>'' = P2 @ ''>''"
        | (after3) P3 where "P2 = ''<string>'' @ P3" "v @ ''</string>'' = P3 @ CHR ''>'' # x # Q"
        by blast
      then show ?thesis
      proof cases
        case inS
        then have "set ''<string>'' = set (P2 @ CHR ''>'' # x # Q')" by (rule arg_cong)
        then have "x \<in> set ''<string>''" unfolding \<open>set ''<string>'' = set (P2 @ CHR ''>'' # x # Q')\<close> by simp
        with xs show ?thesis by simp
      next
        case bS
        have "P @ ''>'' = K @ ws @ P2 @ ''>''" using after(1) after2(1) by simp
        then show ?thesis unfolding bS [symmetric] .
      next
        case after3
        from adjacent_in_append [OF after3(2)] consider
            (inv) Q' where "v = P3 @ CHR ''>'' # x # Q'"
          | (bv) "v = P3 @ ''>''"
          | (after4) P4 where "P3 = v @ P4" "''</string>'' = P4 @ CHR ''>'' # x # Q"
          by blast
        then show ?thesis
        proof cases
          case inv
          with v gt show ?thesis by simp
        next
          case bv
          with v gt show ?thesis by simp
        next
          case after4
          from after4(2) have "set ''</string>'' = set (P4 @ CHR ''>'' # x # Q)" by (rule arg_cong)
          then have "x \<in> set ''</string>''" unfolding \<open>set ''</string>'' = set (P4 @ CHR ''>'' # x # Q)\<close> by simp
          with xs show ?thesis by simp
        qed
      qed
    qed
  qed
qed

lemma rev_nonempty: "L \<noteq> [] \<Longrightarrow> rev L = last L # rev (butlast L)"
  by (induction L) auto

lemma takeWhile_rev_tail:
  assumes "list_all is_space w" "L \<noteq> []" "\<not> is_space (last L)"
  shows "takeWhile is_space (rev (B @ L @ w)) = rev w"
proof -
  have 1: "rev (B @ L @ w) = rev w @ last L # (rev (butlast L) @ rev B)"
    using rev_nonempty [OF assms(2)] by simp
  have 2: "list_all is_space (rev w)" using assms(1) by (simp add: list_all_iff)
  show ?thesis unfolding 1 using 2 assms(3) by (rule takeWhile_run)
qed

lemma append_eq_suffix: "A1 @ K1 = A0 @ K0 \<Longrightarrow> suffix K1 K0 \<or> suffix K0 K1"
  unfolding suffix_def append_eq_append_conv2 by blast

lemma key_conflict:
  assumes eq: "A1 @ Kk @ ws @ S = A0 @ Kj @ wsj @ S"
    and ws: "list_all is_space ws" "list_all is_space wsj"
    and K: "Kk \<noteq> []" "Kj \<noteq> []" "\<not> is_space (last Kk)" "\<not> is_space (last Kj)"
  shows "suffix Kk Kj \<or> suffix Kj Kk"
proof -
  from eq have e: "A1 @ Kk @ ws = A0 @ Kj @ wsj" by simp
  then have "takeWhile is_space (rev (A1 @ Kk @ ws)) = takeWhile is_space (rev (A0 @ Kj @ wsj))"
    by (rule arg_cong)
  then have "rev ws = rev wsj"
    unfolding takeWhile_rev_tail [OF ws(1) K(1,3)] takeWhile_rev_tail [OF ws(2) K(2,4)] .
  then have "ws = wsj" by simp
  with e have "A1 @ Kk = A0 @ Kj" by simp
  then show ?thesis by (rule append_eq_suffix)
qed

lemma append_eq_cases:
  assumes "A @ X = M @ rest"
  shows "(\<exists>us. A = M @ us) \<or> (\<exists>us. A @ us = M \<and> X = us @ rest \<and> us \<noteq> [])"
proof -
  from assms [unfolded append_eq_append_conv2]
  consider us where "A = M @ us" "us @ X = rest" | us where "A @ us = M" "X = us @ rest"
    by blast
  then show ?thesis
  proof cases
    case 1
    then show ?thesis by blast
  next
    case 2
    show ?thesis
    proof (cases "us = []")
      case True
      with 2 have "A = M @ []" by simp
      then show ?thesis by blast
    next
      case False
      with 2 show ?thesis by blast
    qed
  qed
qed

lemma match_local:
  assumes m: "rmatch (file_regex K) pos (A2 @ X) = Some m"
    and A2: "A2 \<noteq> []" "last A2 = CHR ''>''"
    and X: "X \<noteq> []" "cmem DigitOrDot (hd X)"
    and K: "list_all (\<lambda>(a, b). \<not> (a = CHR ''>'' \<and> cmem DigitOrDot b)) (zip K (tl K))"
    and nc: "\<And>ws. list_all is_space ws \<Longrightarrow> A2 \<noteq> K @ ws @ ''<string>''"
  shows "\<exists>M R. A2 = M @ R \<and> (\<forall>Y. rmatch (file_regex K) pos (M @ Y) = Some m) \<and>
           (\<exists>a b. m = [a, b] \<and> a < b \<and> b \<le> pos + length A2)"
proof -
  from m obtain ws v rest where u: "A2 @ X = K @ ws @ ''<string>'' @ v @ ''</string>'' @ rest"
    and ws: "list_all is_space ws" and v: "v \<noteq> []" "list_all (cmem DigitOrDot) v"
    and mm: "m = [pos + length K + length ws + 8, pos + length K + length ws + 8 + length v]"
    unfolding rmatch_file_regex_iff by blast
  define M where "M = K @ ws @ ''<string>'' @ v @ ''</string>''"
  have lenM: "length M = length K + length ws + 8 + length v + 9" by (simp add: M_def)
  have mM: "rmatch (file_regex K) pos (M @ Y) = Some m" for Y
  proof -
    have "M @ Y = K @ ws @ ''<string>'' @ v @ ''</string>'' @ Y" by (simp add: M_def)
    then show ?thesis unfolding rmatch_file_regex_iff using ws v mm by blast
  qed
  from u have "A2 @ X = M @ rest" by (simp add: M_def)
  from append_eq_cases [OF this]
  consider us where "A2 = M @ us" | us where "A2 @ us = M" "X = us @ rest" "us \<noteq> []"
    by blast
  then show ?thesis
  proof cases
    case 1
    then have "length A2 = length M + length us" by simp
    with lenM have "pos + length K + length ws + 8 + length v \<le> pos + length A2" by simp
    moreover from v(1) have "pos + length K + length ws + 8 < pos + length K + length ws + 8 + length v"
      by simp
    ultimately show ?thesis using 1 mM mm by blast
  next
    case 2
    from 2(2,3) obtain us' where us: "us = hd X # us'" by (cases us) auto
    from append_butlast_last_id [OF A2(1)] A2(2) have P: "A2 = butlast A2 @ ''>''" by simp
    have "K @ ws @ ''<string>'' @ v @ ''</string>'' = butlast A2 @ CHR ''>'' # hd X # us'"
    proof -
      have "M = A2 @ us" using 2(1) by simp
      also have "\<dots> = (butlast A2 @ ''>'') @ us" using P by simp
      finally show ?thesis unfolding M_def us by simp
    qed
    from value_start_unique [OF this X(2) ws v(2) K] P have "A2 = K @ ws @ ''<string>''" by simp
    with nc [OF ws] show ?thesis by simp
  qed
qed

lemma match_local_eq:
  assumes A2: "A2 \<noteq> []" "last A2 = CHR ''>''"
    and X: "X \<noteq> []" "cmem DigitOrDot (hd X)" "X' \<noteq> []" "cmem DigitOrDot (hd X')"
    and K: "list_all (\<lambda>(a, b). \<not> (a = CHR ''>'' \<and> cmem DigitOrDot b)) (zip K (tl K))"
    and nc: "\<And>ws. list_all is_space ws \<Longrightarrow> A2 \<noteq> K @ ws @ ''<string>''"
  shows "rmatch (file_regex K) pos (A2 @ X) = rmatch (file_regex K) pos (A2 @ X')"
proof -
  have 1: "rmatch (file_regex K) pos (A2 @ Z') = Some m"
    if "rmatch (file_regex K) pos (A2 @ Z) = Some m" "Z \<noteq> []" "cmem DigitOrDot (hd Z)" for Z Z' m
  proof -
    from match_local [OF that(1) A2 that(2,3) K nc] obtain M R where
      MR: "A2 = M @ R" "\<forall>Y. rmatch (file_regex K) pos (M @ Y) = Some m" by blast
    then have "rmatch (file_regex K) pos (M @ (R @ Z')) = Some m" by blast
    with MR(1) show ?thesis by simp
  qed
  show ?thesis
  proof (cases "rmatch (file_regex K) pos (A2 @ X)")
    case (Some m)
    with 1 [OF Some X(1,2), of X'] show ?thesis by simp
  next
    case None
    show ?thesis
    proof (cases "rmatch (file_regex K) pos (A2 @ X')")
      case (Some m)
      with 1 [OF Some X(3,4), of X] None show ?thesis by simp
    next
      case None': None
      with None show ?thesis by simp
    qed
  qed
qed

subsection \<open>Searching after a replacement\<close>

lemma search_split:
  assumes loc: "\<And>A1 A2 q. A = A1 @ A2 \<Longrightarrow> A2 \<noteq> [] \<Longrightarrow>
                  rmatch p q (A2 @ Y) = rmatch p q (A2 @ Y')"
    and bound: "\<And>A1 A2 q m. A = A1 @ A2 \<Longrightarrow> A2 \<noteq> [] \<Longrightarrow> rmatch p q (A2 @ Y) = Some m \<Longrightarrow>
                  \<exists>a b. m = [a, b] \<and> a < b \<and> b \<le> q + length A2"
  shows "\<exists>r. (r = None \<or> (\<exists>a b. r = Some [a, b] \<and> a < b \<and> b \<le> pos + length A)) \<and>
           search_from p pos (A @ Y) =
             (case r of Some m \<Rightarrow> Some m | None \<Rightarrow> search_from p (pos + length A) Y) \<and>
           search_from p pos (A @ Y') =
             (case r of Some m \<Rightarrow> Some m | None \<Rightarrow> search_from p (pos + length A) Y')"
  using assms
proof (induction A arbitrary: pos)
  case Nil
  have "(None = None \<or> (\<exists>a b. None = Some [a, b] \<and> a < b \<and> b \<le> pos + length ([]::string))) \<and>
           search_from p pos ([] @ Y) =
             (case None of Some m \<Rightarrow> Some m | None \<Rightarrow> search_from p (pos + length ([]::string)) Y) \<and>
           search_from p pos ([] @ Y') =
             (case None of Some m \<Rightarrow> Some m | None \<Rightarrow> search_from p (pos + length ([]::string)) Y')"
    by simp
  then show ?case by (rule exI)
next
  case (Cons c A)
  have here: "rmatch p pos ((c # A) @ Y) = rmatch p pos ((c # A) @ Y')"
    using Cons.prems(1) [of "[]" "c # A" pos] by simp
  show ?case
  proof (cases "rmatch p pos ((c # A) @ Y)")
    case (Some m)
    from Cons.prems(2) [of "[]" "c # A" pos m] Some
    obtain a b where ab: "m = [a, b]" "a < b" "b \<le> pos + length (c # A)" by auto
    have s1: "search_from p pos ((c # A) @ Y) = Some m" using Some by simp
    have some': "rmatch p pos ((c # A) @ Y') = Some m" unfolding here [symmetric] by (fact Some)
    have s2: "search_from p pos ((c # A) @ Y') = Some m" using some' by simp
    have "(Some m = None \<or> (\<exists>a b. Some m = Some [a, b] \<and> a < b \<and> b \<le> pos + length (c # A))) \<and>
           search_from p pos ((c # A) @ Y) =
             (case Some m of Some m \<Rightarrow> Some m | None \<Rightarrow> search_from p (pos + length (c # A)) Y) \<and>
           search_from p pos ((c # A) @ Y') =
             (case Some m of Some m \<Rightarrow> Some m | None \<Rightarrow> search_from p (pos + length (c # A)) Y')"
      unfolding s1 s2 using ab by simp
    then show ?thesis by (rule exI)
  next
    case None
    have loc': "rmatch p q (A2 @ Y) = rmatch p q (A2 @ Y')" if "A = A1 @ A2" "A2 \<noteq> []" for A1 A2 q
      using Cons.prems(1) [of "c # A1" A2 q] that by simp
    have bound': "\<exists>a b. m = [a, b] \<and> a < b \<and> b \<le> q + length A2"
      if "A = A1 @ A2" "A2 \<noteq> []" "rmatch p q (A2 @ Y) = Some m" for A1 A2 q m
      using Cons.prems(2) [of "c # A1" A2 q m] that by simp
    from Cons.IH [of "Suc pos", OF loc' bound'] obtain r where
      rr: "(r = None \<or> (\<exists>a b. r = Some [a, b] \<and> a < b \<and> b \<le> Suc pos + length A)) \<and>
      search_from p (Suc pos) (A @ Y) =
             (case r of Some m \<Rightarrow> Some m | None \<Rightarrow> search_from p (Suc pos + length A) Y) \<and>
      search_from p (Suc pos) (A @ Y') =
             (case r of Some m \<Rightarrow> Some m | None \<Rightarrow> search_from p (Suc pos + length A) Y')"
      by (rule exE)
    note r = rr [THEN conjunct1] rr [THEN conjunct2, THEN conjunct1]
      rr [THEN conjunct2, THEN conjunct2]
    have "(r = None \<or> (\<exists>a b. r = Some [a, b] \<and> a < b \<and> b \<le> pos + length (c # A))) \<and>
           search_from p pos ((c # A) @ Y) =
             (case r of Some m \<Rightarrow> Some m | None \<Rightarrow> search_from p (pos + length (c # A)) Y) \<and>
           search_from p pos ((c # A) @ Y') =
             (case r of Some m \<Rightarrow> Some m | None \<Rightarrow> search_from p (pos + length (c # A)) Y')"
    proof -
      have n1: "search_from p pos ((c # A) @ Y) = search_from p (Suc pos) (A @ Y)"
        using None by simp
      have none': "rmatch p pos ((c # A) @ Y') = None" unfolding here [symmetric] by (fact None)
      have n2: "search_from p pos ((c # A) @ Y') = search_from p (Suc pos) (A @ Y')"
        using none' by simp
      have e: "pos + length (c # A) = Suc pos + length A" by simp
      show ?thesis unfolding n1 n2 e by (intro conjI) (fact r)+
    qed
    then show ?thesis by (rule exI)
  qed
qed

lemma search_skip:
  assumes "\<And>c cs q. c \<in> set V \<Longrightarrow> rmatch p q (c # cs) = None"
  shows "search_from p pos (V @ B) = search_from p (pos + length V) B"
  using assms by (induction V arbitrary: pos) simp_all

lemma file_regex_first_char:
  "K \<noteq> [] \<Longrightarrow> hd K \<noteq> c \<Longrightarrow> rmatch (file_regex K) q (c # cs) = None"
  by (cases K) (simp_all add: file_regex_def)

lemma Bol_file_regex: "Bol \<notin> set (file_regex K)"
  by (simp add: file_regex_def)

lemma search_file_regex_span:
  assumes "search_from (file_regex K) pos t = Some m"
  shows "\<exists>a b. m = [a, b] \<and> a < b \<and> b \<le> pos + length t"
proof -
  from search_from_Some [OF assms] obtain pre u where
    t: "t = pre @ u" and m: "rmatch (file_regex K) (pos + length pre) u = Some m" by blast
  from m obtain ws v rest where u: "u = K @ ws @ ''<string>'' @ v @ ''</string>'' @ rest"
    and v: "v \<noteq> []"
    and mm: "m = [pos + length pre + length K + length ws + 8,
                 pos + length pre + length K + length ws + 8 + length v]"
    unfolding rmatch_file_regex_iff by blast
  have "length t = length pre + length K + length ws + 8 + length v + 9 + length rest"
    unfolding t u by simp
  with mm v show ?thesis by simp
qed

lemma search_after_replace:
  assumes j: "search (file_regex Kj) t = Some [s, e]"
    and kc: "Kk \<noteq> []" "Kj \<noteq> []" "hd Kk = CHR ''<''" "\<not> is_space (last Kk)"
      "\<not> is_space (last Kj)" "\<not> suffix Kk Kj" "\<not> suffix Kj Kk"
      "list_all (\<lambda>(a, b). \<not> (a = CHR ''>'' \<and> cmem DigitOrDot b)) (zip Kk (tl Kk))"
    and v: "v \<noteq> []" "cmem DigitOrDot (hd v)" "CHR ''<'' \<notin> set v"
  shows "search (file_regex Kk) (take s t @ v @ drop e t) =
           map_option (map (\<lambda>i. if i \<le> s then i else i - e + (s + length v)))
             (search (file_regex Kk) t) \<and>
         (\<forall>m. search (file_regex Kk) t = Some m \<longrightarrow>
            (\<exists>a b. m = [a, b] \<and> a < b \<and> (b \<le> s \<or> e \<le> a) \<and> b \<le> length t)) \<and>
         s < e \<and> e \<le> length t"
proof -
  let ?p = "file_regex Kk"
  from search_from_Some [OF j [unfolded search_def]] obtain pre u where
    t: "t = pre @ u" and m: "rmatch (file_regex Kj) (0 + length pre) u = Some [s, e]" by blast
  from m obtain ws V rest where u: "u = Kj @ ws @ ''<string>'' @ V @ ''</string>'' @ rest"
    and ws: "list_all is_space ws" and V: "V \<noteq> []" "list_all (cmem DigitOrDot) V"
    and se: "[s, e] = [0 + length pre + length Kj + length ws + 8,
                       0 + length pre + length Kj + length ws + 8 + length V]"
    unfolding rmatch_file_regex_iff by blast
  define A where "A = pre @ Kj @ ws @ ''<string>''"
  define B where "B = ''</string>'' @ rest"
  have tA: "t = A @ V @ B" unfolding t u A_def B_def by simp
  have lA: "length A = s" and e: "e = s + length V" using se by (simp_all add: A_def)
  have se': "s < e" "e \<le> length t" using V(1) e lA tA by simp_all
  have t': "take s t @ v @ drop e t = A @ v @ B" unfolding tA using lA e by simp
  have hdV: "cmem DigitOrDot (hd V)" using V by (cases V) simp_all
  have "\<not> cmem DigitOrDot CHR ''<''" by (simp add: is_digit_def)
  with V(2) have ltV: "CHR ''<'' \<notin> set V" unfolding list_all_iff by blast
  have X: "V @ B \<noteq> []" "cmem DigitOrDot (hd (V @ B))" "v @ B \<noteq> []" "cmem DigitOrDot (hd (v @ B))"
    using V(1) v(1,2) hdV by simp_all
  have lastA: "last A2 = CHR ''>''" if "A = A1 @ A2" "A2 \<noteq> []" for A1 A2
  proof -
    from that have "last A2 = last A" by simp
    also have "\<dots> = CHR ''>''" by (simp add: A_def)
    finally show ?thesis .
  qed
  have nc: "A2 \<noteq> Kk @ ws' @ ''<string>''" if "A = A1 @ A2" "list_all is_space ws'" for A1 A2 ws'
  proof
    assume "A2 = Kk @ ws' @ ''<string>''"
    with that(1) have "A1 @ Kk @ ws' @ ''<string>'' = pre @ Kj @ ws @ ''<string>''"
      by (simp add: A_def)
    from key_conflict [OF this that(2) ws kc(1,2,4,5)] kc(6,7) show False by simp
  qed
  have loc: "rmatch ?p q (A2 @ V @ B) = rmatch ?p q (A2 @ v @ B)"
    if "A = A1 @ A2" "A2 \<noteq> []" for A1 A2 q
    using match_local_eq [OF that(2) lastA [OF that] X kc(8) nc [OF that(1)]] .
  have bound: "\<exists>a b. m = [a, b] \<and> a < b \<and> b \<le> q + length A2"
    if "A = A1 @ A2" "A2 \<noteq> []" "rmatch ?p q (A2 @ V @ B) = Some m" for A1 A2 q m
    using match_local [OF that(3,2) lastA [OF that(1,2)] X(1,2) kc(8) nc [OF that(1)]] by blast
  from search_split [of A ?p "V @ B" "v @ B" 0, OF loc bound] obtain r where
    rr: "(r = None \<or> (\<exists>a b. r = Some [a, b] \<and> a < b \<and> b \<le> 0 + length A)) \<and>
      search_from ?p 0 (A @ V @ B) =
        (case r of Some m \<Rightarrow> Some m | None \<Rightarrow> search_from ?p (0 + length A) (V @ B)) \<and>
      search_from ?p 0 (A @ v @ B) =
        (case r of Some m \<Rightarrow> Some m | None \<Rightarrow> search_from ?p (0 + length A) (v @ B))"
    by (rule exE)
  note r = rr [THEN conjunct1] rr [THEN conjunct2, THEN conjunct1]
      rr [THEN conjunct2, THEN conjunct2]
  have skipV: "search_from ?p (0 + length A) (V @ B) = search_from ?p (0 + e) B"
  proof -
    have "rmatch ?p q (c # cs) = None" if "c \<in> set V" for c cs q
      using file_regex_first_char [OF kc(1), of c q cs] that ltV kc(3) by auto
    from search_skip [of V ?p "0 + length A" B, OF this] show ?thesis
      by (simp add: lA e)
  qed
  have skipv: "search_from ?p (0 + length A) (v @ B) = search_from ?p (0 + (s + length v)) B"
  proof -
    have "rmatch ?p q (c # cs) = None" if "c \<in> set v" for c cs q
      using file_regex_first_char [OF kc(1), of c q cs] that v(3) kc(3) by auto
    from search_skip [of v ?p "0 + length A" B, OF this] show ?thesis
      by (simp add: lA)
  qed
  note sh = search_from_shift [OF Bol_file_regex, of Kk 0 _ B]
  have st: "search ?p t = (case r of Some m \<Rightarrow> Some m
              | None \<Rightarrow> map_option (map (\<lambda>i. i + e)) (search_from ?p 0 B))"
    unfolding search_def tA r(2) skipV sh ..
  have st': "search ?p (take s t @ v @ drop e t) = (case r of Some m \<Rightarrow> Some m
              | None \<Rightarrow> map_option (map (\<lambda>i. i + (s + length v))) (search_from ?p 0 B))"
    unfolding search_def t' r(3) skipv sh ..
  show ?thesis
  proof (cases r)
    case (Some m)
    with r(1) lA obtain a b where ab: "m = [a, b]" "a < b" "b \<le> s" by auto
    from ab se' have "b \<le> length t" by simp
    with st st' Some ab se' show ?thesis by simp
  next
    case None
    show ?thesis
    proof (cases "search_from ?p 0 B")
      case N: None
      with st st' None se' show ?thesis by simp
    next
      case (Some m0)
      from search_file_regex_span [OF Some] obtain a b where
        ab: "m0 = [a, b]" "a < b" "b \<le> 0 + length B" by blast
      have "b + e \<le> length t" using ab(3) tA lA e by simp
      with st st' None Some ab se' show ?thesis by simp
    qed
  qed
qed

subsection \<open>Three replacements\<close>

lemma three_spans:
  assumes "a \<le> b" "b \<le> c" "c \<le> d" "d \<le> f" "f \<le> g" "g \<le> length t"
  shows "\<exists>P0 O1 P1 O2 P2 O3 P3. t = P0 @ O1 @ P1 @ O2 @ P2 @ O3 @ P3 \<and>
           a = length P0 \<and> b = length P0 + length O1 \<and>
           c = length P0 + length O1 + length P1 \<and>
           d = length P0 + length O1 + length P1 + length O2 \<and>
           f = length P0 + length O1 + length P1 + length O2 + length P2 \<and>
           g = length P0 + length O1 + length P1 + length O2 + length P2 + length O3 \<and>
           slice t a b = O1 \<and> slice t c d = O2 \<and> slice t f g = O3"
proof -
  define P0 where "P0 = take a t"
  define O1 where "O1 = slice t a b"
  define P1 where "P1 = slice t b c"
  define O2 where "O2 = slice t c d"
  define P2 where "P2 = slice t d f"
  define O3 where "O3 = slice t f g"
  define P3 where "P3 = drop g t"
  have sl: "drop x t = slice t x y @ drop y t" if "x \<le> y" for x y
  proof -
    have "drop x t = take (y - x) (drop x t) @ drop (y - x) (drop x t)"
      by (simp only: append_take_drop_id)
    also have "drop (y - x) (drop x t) = drop y t" using that by simp
    finally show ?thesis by (simp add: slice_def)
  qed
  have "t = take a t @ drop a t" by simp
  also have "drop a t = O1 @ drop b t" unfolding O1_def using assms(1) by (rule sl)
  also have "drop b t = P1 @ drop c t" unfolding P1_def using assms(2) by (rule sl)
  also have "drop c t = O2 @ drop d t" unfolding O2_def using assms(3) by (rule sl)
  also have "drop d t = P2 @ drop f t" unfolding P2_def using assms(4) by (rule sl)
  also have "drop f t = O3 @ drop g t" unfolding O3_def using assms(5) by (rule sl)
  finally have t: "t = P0 @ O1 @ P1 @ O2 @ P2 @ O3 @ P3" unfolding P0_def P3_def .
  have len: "length P0 = a" "length O1 = b - a" "length P1 = c - b" "length O2 = d - c"
    "length P2 = f - d" "length O3 = g - f"
    unfolding P0_def O1_def P1_def O2_def P2_def O3_def slice_def using assms by simp_all
  have eqs: "a = length P0" "b = length P0 + length O1" "c = length P0 + length O1 + length P1"
    "d = length P0 + length O1 + length P1 + length O2"
    "f = length P0 + length O1 + length P1 + length O2 + length P2"
    "g = length P0 + length O1 + length P1 + length O2 + length P2 + length O3"
    unfolding len using assms by simp_all
  show ?thesis
    apply (intro exI conjI)
             apply (rule t)
            apply (rule eqs(1))
           apply (rule eqs(2))
          apply (rule eqs(3))
         apply (rule eqs(4))
        apply (rule eqs(5))
       apply (rule eqs(6))
      apply (rule O1_def [symmetric])
     apply (rule O2_def [symmetric])
    apply (rule O3_def [symmetric])
    done
qed

lemma splice_123:
  assumes t: "t = P0 @ O1 @ P1 @ O2 @ P2 @ O3 @ P3"
    and ne: "O1 \<noteq> []" "O2 \<noteq> []" "O3 \<noteq> []"
    and ix: "sa = length P0" "ea = length P0 + length O1"
      "sb = length P0 + length O1 + length P1"
      "eb = length P0 + length O1 + length P1 + length O2"
      "sc = length P0 + length O1 + length P1 + length O2 + length P2"
      "ec = length P0 + length O1 + length P1 + length O2 + length P2 + length O3"
    and f1: "f1 = (\<lambda>i. if i \<le> sa then i else i - ea + (sa + length va))"
    and t1: "t1 = take sa t @ va @ drop ea t"
    and f2: "f2 = (\<lambda>i. if i \<le> f1 sb then i else i - f1 eb + (f1 sb + length vb))"
    and t2: "t2 = take (f1 sb) t1 @ vb @ drop (f1 eb) t1"
    and t3: "t3 = take (f2 (f1 sc)) t2 @ vc @ drop (f2 (f1 ec)) t2"
  shows "t3 = P0 @ va @ P1 @ vb @ P2 @ vc @ P3"
proof -
  have l: "0 < length O1" "0 < length O2" "0 < length O3" using ne by simp_all
  have 1: "t1 = P0 @ va @ P1 @ O2 @ P2 @ O3 @ P3" unfolding t1 t ix by simp
  have sb': "f1 sb = length P0 + length va + length P1" unfolding f1 ix using l by simp
  have eb': "f1 eb = length P0 + length va + length P1 + length O2" unfolding f1 ix using l by simp
  have sc': "f1 sc = length P0 + length va + length P1 + length O2 + length P2" unfolding f1 ix using l by simp
  have ec': "f1 ec = length P0 + length va + length P1 + length O2 + length P2 + length O3" unfolding f1 ix using l by simp
  have 2: "t2 = P0 @ va @ P1 @ vb @ P2 @ O3 @ P3" unfolding t2 1 sb' eb' by simp
  have sc'': "f2 (f1 sc) = length P0 + length va + length P1 + length vb + length P2" unfolding f2 sb' eb' sc' using l by simp
  have ec'': "f2 (f1 ec) = length P0 + length va + length P1 + length vb + length P2 + length O3" unfolding f2 sb' eb' ec' using l by simp
  show ?thesis unfolding t3 2 sc'' ec'' by simp
qed

lemma splice_132:
  assumes t: "t = P0 @ O1 @ P1 @ O2 @ P2 @ O3 @ P3"
    and ne: "O1 \<noteq> []" "O2 \<noteq> []" "O3 \<noteq> []"
    and ix: "sa = length P0" "ea = length P0 + length O1"
      "sb = length P0 + length O1 + length P1 + length O2 + length P2"
      "eb = length P0 + length O1 + length P1 + length O2 + length P2 + length O3"
      "sc = length P0 + length O1 + length P1"
      "ec = length P0 + length O1 + length P1 + length O2"
    and f1: "f1 = (\<lambda>i. if i \<le> sa then i else i - ea + (sa + length va))"
    and t1: "t1 = take sa t @ va @ drop ea t"
    and f2: "f2 = (\<lambda>i. if i \<le> f1 sb then i else i - f1 eb + (f1 sb + length vb))"
    and t2: "t2 = take (f1 sb) t1 @ vb @ drop (f1 eb) t1"
    and t3: "t3 = take (f2 (f1 sc)) t2 @ vc @ drop (f2 (f1 ec)) t2"
  shows "t3 = P0 @ va @ P1 @ vc @ P2 @ vb @ P3"
proof -
  have l: "0 < length O1" "0 < length O2" "0 < length O3" using ne by simp_all
  have 1: "t1 = P0 @ va @ P1 @ O2 @ P2 @ O3 @ P3" unfolding t1 t ix by simp
  have sb': "f1 sb = length P0 + length va + length P1 + length O2 + length P2" unfolding f1 ix using l by simp
  have eb': "f1 eb = length P0 + length va + length P1 + length O2 + length P2 + length O3" unfolding f1 ix using l by simp
  have sc': "f1 sc = length P0 + length va + length P1" unfolding f1 ix using l by simp
  have ec': "f1 ec = length P0 + length va + length P1 + length O2" unfolding f1 ix using l by simp
  have 2: "t2 = P0 @ va @ P1 @ O2 @ P2 @ vb @ P3" unfolding t2 1 sb' eb' by simp
  have sc'': "f2 (f1 sc) = length P0 + length va + length P1" unfolding f2 sb' eb' sc' using l by simp
  have ec'': "f2 (f1 ec) = length P0 + length va + length P1 + length O2" unfolding f2 sb' eb' ec' using l by simp
  show ?thesis unfolding t3 2 sc'' ec'' by simp
qed

lemma splice_213:
  assumes t: "t = P0 @ O1 @ P1 @ O2 @ P2 @ O3 @ P3"
    and ne: "O1 \<noteq> []" "O2 \<noteq> []" "O3 \<noteq> []"
    and ix: "sa = length P0 + length O1 + length P1" "ea = length P0 + length O1 + length P1 + length O2"
      "sb = length P0"
      "eb = length P0 + length O1"
      "sc = length P0 + length O1 + length P1 + length O2 + length P2"
      "ec = length P0 + length O1 + length P1 + length O2 + length P2 + length O3"
    and f1: "f1 = (\<lambda>i. if i \<le> sa then i else i - ea + (sa + length va))"
    and t1: "t1 = take sa t @ va @ drop ea t"
    and f2: "f2 = (\<lambda>i. if i \<le> f1 sb then i else i - f1 eb + (f1 sb + length vb))"
    and t2: "t2 = take (f1 sb) t1 @ vb @ drop (f1 eb) t1"
    and t3: "t3 = take (f2 (f1 sc)) t2 @ vc @ drop (f2 (f1 ec)) t2"
  shows "t3 = P0 @ vb @ P1 @ va @ P2 @ vc @ P3"
proof -
  have l: "0 < length O1" "0 < length O2" "0 < length O3" using ne by simp_all
  have 1: "t1 = P0 @ O1 @ P1 @ va @ P2 @ O3 @ P3" unfolding t1 t ix by simp
  have sb': "f1 sb = length P0" unfolding f1 ix using l by simp
  have eb': "f1 eb = length P0 + length O1" unfolding f1 ix using l by simp
  have sc': "f1 sc = length P0 + length O1 + length P1 + length va + length P2" unfolding f1 ix using l by simp
  have ec': "f1 ec = length P0 + length O1 + length P1 + length va + length P2 + length O3" unfolding f1 ix using l by simp
  have 2: "t2 = P0 @ vb @ P1 @ va @ P2 @ O3 @ P3" unfolding t2 1 sb' eb' by simp
  have sc'': "f2 (f1 sc) = length P0 + length vb + length P1 + length va + length P2" unfolding f2 sb' eb' sc' using l by simp
  have ec'': "f2 (f1 ec) = length P0 + length vb + length P1 + length va + length P2 + length O3" unfolding f2 sb' eb' ec' using l by simp
  show ?thesis unfolding t3 2 sc'' ec'' by simp
qed

lemma splice_231:
  assumes t: "t = P0 @ O1 @ P1 @ O2 @ P2 @ O3 @ P3"
    and ne: "O1 \<noteq> []" "O2 \<noteq> []" "O3 \<noteq> []"
    and ix: "sa = length P0 + length O1 + length P1" "ea = length P0 + length O1 + length P1 + length O2"
      "sb = length P0 + length O1 + length P1 + length O2 + length P2"
      "eb = length P0 + length O1 + length P1 + length O2 + length P2 + length O3"
      "sc = length P0"
      "ec = length P0 + length O1"
    and f1: "f1 = (\<lambda>i. if i \<le> sa then i else i - ea + (sa + length va))"
    and t1: "t1 = take sa t @ va @ drop ea t"
    and f2: "f2 = (\<lambda>i. if i \<le> f1 sb then i else i - f1 eb + (f1 sb + length vb))"
    and t2: "t2 = take (f1 sb) t1 @ vb @ drop (f1 eb) t1"
    and t3: "t3 = take (f2 (f1 sc)) t2 @ vc @ drop (f2 (f1 ec)) t2"
  shows "t3 = P0 @ vc @ P1 @ va @ P2 @ vb @ P3"
proof -
  have l: "0 < length O1" "0 < length O2" "0 < length O3" using ne by simp_all
  have 1: "t1 = P0 @ O1 @ P1 @ va @ P2 @ O3 @ P3" unfolding t1 t ix by simp
  have sb': "f1 sb = length P0 + length O1 + length P1 + length va + length P2" unfolding f1 ix using l by simp
  have eb': "f1 eb = length P0 + length O1 + length P1 + length va + length P2 + length O3" unfolding f1 ix using l by simp
  have sc': "f1 sc = length P0" unfolding f1 ix using l by simp
  have ec': "f1 ec = length P0 + length O1" unfolding f1 ix using l by simp
  have 2: "t2 = P0 @ O1 @ P1 @ va @ P2 @ vb @ P3" unfolding t2 1 sb' eb' by simp
  have sc'': "f2 (f1 sc) = length P0" unfolding f2 sb' eb' sc' using l by simp
  have ec'': "f2 (f1 ec) = length P0 + length O1" unfolding f2 sb' eb' ec' using l by simp
  show ?thesis unfolding t3 2 sc'' ec'' by simp
qed

lemma splice_312:
  assumes t: "t = P0 @ O1 @ P1 @ O2 @ P2 @ O3 @ P3"
    and ne: "O1 \<noteq> []" "O2 \<noteq> []" "O3 \<noteq> []"
    and ix: "sa = length P0 + length O1 + length P1 + length O2 + length P2" "ea = length P0 + length O1 + length P1 + length O2 + length P2 + length O3"
      "sb = length P0"
      "eb = length P0 + length O1"
      "sc = length P0 + length O1 + length P1"
      "ec = length P0 + length O1 + length P1 + length O2"
    and f1: "f1 = (\<lambda>i. if i \<le> sa then i else i - ea + (sa + length va))"
    and t1: "t1 = take sa t @ va @ drop ea t"
    and f2: "f2 = (\<lambda>i. if i \<le> f1 sb then i else i - f1 eb + (f1 sb + length vb))"
    and t2: "t2 = take (f1 sb) t1 @ vb @ drop (f1 eb) t1"
    and t3: "t3 = take (f2 (f1 sc)) t2 @ vc @ drop (f2 (f1 ec)) t2"
  shows "t3 = P0 @ vb @ P1 @ vc @ P2 @ va @ P3"
proof -
  have l: "0 < length O1" "0 < length O2" "0 < length O3" using ne by simp_all
  have 1: "t1 = P0 @ O1 @ P1 @ O2 @ P2 @ va @ P3" unfolding t1 t ix by simp
  have sb': "f1 sb = length P0" unfolding f1 ix using l by simp
  have eb': "f1 eb = length P0 + length O1" unfolding f1 ix using l by simp
  have sc': "f1 sc = length P0 + length O1 + length P1" unfolding f1 ix using l by simp
  have ec': "f1 ec = length P0 + length O1 + length P1 + length O2" unfolding f1 ix using l by simp
  have 2: "t2 = P0 @ vb @ P1 @ O2 @ P2 @ va @ P3" unfolding t2 1 sb' eb' by simp
  have sc'': "f2 (f1 sc) = length P0 + length vb + length P1" unfolding f2 sb' eb' sc' using l by simp
  have ec'': "f2 (f1 ec) = length P0 + length vb + length P1 + length O2" unfolding f2 sb' eb' ec' using l by simp
  show ?thesis unfolding t3 2 sc'' ec'' by simp
qed

lemma splice_321:
  assumes t: "t = P0 @ O1 @ P1 @ O2 @ P2 @ O3 @ P3"
    and ne: "O1 \<noteq> []" "O2 \<noteq> []" "O3 \<noteq> []"
    and ix: "sa = length P0 + length O1 + length P1 + length O2 + length P2" "ea = length P0 + length O1 + length P1 + length O2 + length P2 + length O3"
      "sb = length P0 + length O1 + length P1"
      "eb = length P0 + length O1 + length P1 + length O2"
      "sc = length P0"
      "ec = length P0 + length O1"
    and f1: "f1 = (\<lambda>i. if i \<le> sa then i else i - ea + (sa + length va))"
    and t1: "t1 = take sa t @ va @ drop ea t"
    and f2: "f2 = (\<lambda>i. if i \<le> f1 sb then i else i - f1 eb + (f1 sb + length vb))"
    and t2: "t2 = take (f1 sb) t1 @ vb @ drop (f1 eb) t1"
    and t3: "t3 = take (f2 (f1 sc)) t2 @ vc @ drop (f2 (f1 ec)) t2"
  shows "t3 = P0 @ vc @ P1 @ vb @ P2 @ va @ P3"
proof -
  have l: "0 < length O1" "0 < length O2" "0 < length O3" using ne by simp_all
  have 1: "t1 = P0 @ O1 @ P1 @ O2 @ P2 @ va @ P3" unfolding t1 t ix by simp
  have sb': "f1 sb = length P0 + length O1 + length P1" unfolding f1 ix using l by simp
  have eb': "f1 eb = length P0 + length O1 + length P1 + length O2" unfolding f1 ix using l by simp
  have sc': "f1 sc = length P0" unfolding f1 ix using l by simp
  have ec': "f1 ec = length P0 + length O1" unfolding f1 ix using l by simp
  have 2: "t2 = P0 @ O1 @ P1 @ vb @ P2 @ va @ P3" unfolding t2 1 sb' eb' by simp
  have sc'': "f2 (f1 sc) = length P0" unfolding f2 sb' eb' sc' using l by simp
  have ec'': "f2 (f1 ec) = length P0 + length O1" unfolding f2 sb' eb' ec' using l by simp
  show ?thesis unfolding t3 2 sc'' ec'' by simp
qed

lemma three_spans_cases:
  assumes "a \<le> b" "b \<le> c" "c \<le> d" "d \<le> f" "f \<le> g" "g \<le> length t"
  obtains P0 O1 P1 O2 P2 O3 P3 where "t = P0 @ O1 @ P1 @ O2 @ P2 @ O3 @ P3"
    "a = length P0" "b = length P0 + length O1"
    "c = length P0 + length O1 + length P1"
    "d = length P0 + length O1 + length P1 + length O2"
    "f = length P0 + length O1 + length P1 + length O2 + length P2"
    "g = length P0 + length O1 + length P1 + length O2 + length P2 + length O3"
    "slice t a b = O1" "slice t c d = O2" "slice t f g = O3"
proof -
  from three_spans [OF assms] obtain P0 O1 P1 O2 P2 O3 P3 where
    c: "t = P0 @ O1 @ P1 @ O2 @ P2 @ O3 @ P3 \<and>
           a = length P0 \<and> b = length P0 + length O1 \<and>
           c = length P0 + length O1 + length P1 \<and>
           d = length P0 + length O1 + length P1 + length O2 \<and>
           f = length P0 + length O1 + length P1 + length O2 + length P2 \<and>
           g = length P0 + length O1 + length P1 + length O2 + length P2 + length O3 \<and>
           slice t a b = O1 \<and> slice t c d = O2 \<and> slice t f g = O3"
    by (elim exE)
  show ?thesis using c by (elim conjE) (rule that)
qed

lemma three_splices:
  assumes sp: "sa < ea" "sb < eb" "sc < ec" "ea \<le> length t" "eb \<le> length t" "ec \<le> length t"
    and d: "eb \<le> sa \<or> ea \<le> sb" "ec \<le> sa \<or> ea \<le> sc" "ec \<le> sb \<or> eb \<le> sc"
    and f1: "f1 = (\<lambda>i. if i \<le> sa then i else i - ea + (sa + length va))"
    and t1: "t1 = take sa t @ va @ drop ea t"
    and f2: "f2 = (\<lambda>i. if i \<le> f1 sb then i else i - f1 eb + (f1 sb + length vb))"
    and t2: "t2 = take (f1 sb) t1 @ vb @ drop (f1 eb) t1"
    and t3: "t3 = take (f2 (f1 sc)) t2 @ vc @ drop (f2 (f1 ec)) t2"
  shows "\<exists>p0 o1 p1 o2 p2 o3 p3 n1 n2 n3.
           t = p0 @ o1 @ p1 @ o2 @ p2 @ o3 @ p3 \<and>
           t3 = p0 @ n1 @ p1 @ n2 @ p2 @ n3 @ p3 \<and>
           {(length p0, o1, n1), (length (p0 @ o1 @ p1), o2, n2),
            (length (p0 @ o1 @ p1 @ o2 @ p2), o3, n3)} =
           {(sa, slice t sa ea, va), (sb, slice t sb eb, vb), (sc, slice t sc ec, vc)}"
proof -
  from sp d consider
      (c123) "ea \<le> sb" "eb \<le> sc"
    | (c132) "ea \<le> sc" "ec \<le> sb"
    | (c213) "eb \<le> sa" "ea \<le> sc"
    | (c231) "ec \<le> sa" "ea \<le> sb"
    | (c312) "eb \<le> sc" "ec \<le> sa"
    | (c321) "ec \<le> sb" "eb \<le> sa"
    by linarith
  then show ?thesis
  proof cases
    case c123
    have le: "sa \<le> ea" "ea \<le> sb" "sb \<le> eb" "eb \<le> sc" "sc \<le> ec" "ec \<le> length t"
      using sp c123 by simp_all
    show ?thesis
    proof (rule three_spans_cases [OF le])
      fix P0 O1 P1 O2 P2 O3 P3
      assume t: "t = P0 @ O1 @ P1 @ O2 @ P2 @ O3 @ P3"
        and isa: "sa = length P0"
        and iea: "ea = length P0 + length O1"
        and isb: "sb = length P0 + length O1 + length P1"
        and ieb: "eb = length P0 + length O1 + length P1 + length O2"
        and isc: "sc = length P0 + length O1 + length P1 + length O2 + length P2"
        and iec: "ec = length P0 + length O1 + length P1 + length O2 + length P2 + length O3"
        and sl: "slice t sa ea = O1" "slice t sb eb = O2" "slice t sc ec = O3"
      have ne: "O1 \<noteq> []" "O2 \<noteq> []" "O3 \<noteq> []"
        using sp isa iea isb ieb isc iec by auto
      have r: "t3 = P0 @ va @ P1 @ vb @ P2 @ vc @ P3"
        by (rule splice_123 [OF t ne isa iea isb ieb isc iec f1 t1 f2 t2 t3])
      have s: "{(length P0, O1, va), (length (P0 @ O1 @ P1), O2, vb),
            (length (P0 @ O1 @ P1 @ O2 @ P2), O3, vc)} =
           {(sa, slice t sa ea, va), (sb, slice t sb eb, vb), (sc, slice t sc ec, vc)}"
        unfolding sl unfolding isa isb isc by (simp add: insert_commute add.assoc)
      show ?thesis
        apply (intro exI conjI)
          apply (rule t)
         apply (rule r)
        apply (rule s)
        done
    qed
  next
    case c132
    have le: "sa \<le> ea" "ea \<le> sc" "sc \<le> ec" "ec \<le> sb" "sb \<le> eb" "eb \<le> length t"
      using sp c132 by simp_all
    show ?thesis
    proof (rule three_spans_cases [OF le])
      fix P0 O1 P1 O2 P2 O3 P3
      assume t: "t = P0 @ O1 @ P1 @ O2 @ P2 @ O3 @ P3"
        and isa: "sa = length P0"
        and iea: "ea = length P0 + length O1"
        and isc: "sc = length P0 + length O1 + length P1"
        and iec: "ec = length P0 + length O1 + length P1 + length O2"
        and isb: "sb = length P0 + length O1 + length P1 + length O2 + length P2"
        and ieb: "eb = length P0 + length O1 + length P1 + length O2 + length P2 + length O3"
        and sl: "slice t sa ea = O1" "slice t sc ec = O2" "slice t sb eb = O3"
      have ne: "O1 \<noteq> []" "O2 \<noteq> []" "O3 \<noteq> []"
        using sp isa iea isc iec isb ieb by auto
      have r: "t3 = P0 @ va @ P1 @ vc @ P2 @ vb @ P3"
        by (rule splice_132 [OF t ne isa iea isb ieb isc iec f1 t1 f2 t2 t3])
      have s: "{(length P0, O1, va), (length (P0 @ O1 @ P1), O2, vc),
            (length (P0 @ O1 @ P1 @ O2 @ P2), O3, vb)} =
           {(sa, slice t sa ea, va), (sb, slice t sb eb, vb), (sc, slice t sc ec, vc)}"
        unfolding sl unfolding isa isb isc by (simp add: insert_commute add.assoc)
      show ?thesis
        apply (intro exI conjI)
          apply (rule t)
         apply (rule r)
        apply (rule s)
        done
    qed
  next
    case c213
    have le: "sb \<le> eb" "eb \<le> sa" "sa \<le> ea" "ea \<le> sc" "sc \<le> ec" "ec \<le> length t"
      using sp c213 by simp_all
    show ?thesis
    proof (rule three_spans_cases [OF le])
      fix P0 O1 P1 O2 P2 O3 P3
      assume t: "t = P0 @ O1 @ P1 @ O2 @ P2 @ O3 @ P3"
        and isb: "sb = length P0"
        and ieb: "eb = length P0 + length O1"
        and isa: "sa = length P0 + length O1 + length P1"
        and iea: "ea = length P0 + length O1 + length P1 + length O2"
        and isc: "sc = length P0 + length O1 + length P1 + length O2 + length P2"
        and iec: "ec = length P0 + length O1 + length P1 + length O2 + length P2 + length O3"
        and sl: "slice t sb eb = O1" "slice t sa ea = O2" "slice t sc ec = O3"
      have ne: "O1 \<noteq> []" "O2 \<noteq> []" "O3 \<noteq> []"
        using sp isb ieb isa iea isc iec by auto
      have r: "t3 = P0 @ vb @ P1 @ va @ P2 @ vc @ P3"
        by (rule splice_213 [OF t ne isa iea isb ieb isc iec f1 t1 f2 t2 t3])
      have s: "{(length P0, O1, vb), (length (P0 @ O1 @ P1), O2, va),
            (length (P0 @ O1 @ P1 @ O2 @ P2), O3, vc)} =
           {(sa, slice t sa ea, va), (sb, slice t sb eb, vb), (sc, slice t sc ec, vc)}"
        unfolding sl unfolding isa isb isc by (simp add: insert_commute add.assoc)
      show ?thesis
        apply (intro exI conjI)
          apply (rule t)
         apply (rule r)
        apply (rule s)
        done
    qed
  next
    case c231
    have le: "sc \<le> ec" "ec \<le> sa" "sa \<le> ea" "ea \<le> sb" "sb \<le> eb" "eb \<le> length t"
      using sp c231 by simp_all
    show ?thesis
    proof (rule three_spans_cases [OF le])
      fix P0 O1 P1 O2 P2 O3 P3
      assume t: "t = P0 @ O1 @ P1 @ O2 @ P2 @ O3 @ P3"
        and isc: "sc = length P0"
        and iec: "ec = length P0 + length O1"
        and isa: "sa = length P0 + length O1 + length P1"
        and iea: "ea = length P0 + length O1 + length P1 + length O2"
        and isb: "sb = length P0 + length O1 + length P1 + length O2 + length P2"
        and ieb: "eb = length P0 + length O1 + length P1 + length O2 + length P2 + length O3"
        and sl: "slice t sc ec = O1" "slice t sa ea = O2" "slice t sb eb = O3"
      have ne: "O1 \<noteq> []" "O2 \<noteq> []" "O3 \<noteq> []"
        using sp isc iec isa iea isb ieb by auto
      have r: "t3 = P0 @ vc @ P1 @ va @ P2 @ vb @ P3"
        by (rule splice_231 [OF t ne isa iea isb ieb isc iec f1 t1 f2 t2 t3])
      have s: "{(length P0, O1, vc), (length (P0 @ O1 @ P1), O2, va),
            (length (P0 @ O1 @ P1 @ O2 @ P2), O3, vb)} =
           {(sa, slice t sa ea, va), (sb, slice t sb eb, vb), (sc, slice t sc ec, vc)}"
        unfolding sl unfolding isa isb isc by (simp add: insert_commute add.assoc)
      show ?thesis
        apply (intro exI conjI)
          apply (rule t)
         apply (rule r)
        apply (rule s)
        done
    qed
  next
    case c312
    have le: "sb \<le> eb" "eb \<le> sc" "sc \<le> ec" "ec \<le> sa" "sa \<le> ea" "ea \<le> length t"
      using sp c312 by simp_all
    show ?thesis
    proof (rule three_spans_cases [OF le])
      fix P0 O1 P1 O2 P2 O3 P3
      assume t: "t = P0 @ O1 @ P1 @ O2 @ P2 @ O3 @ P3"
        and isb: "sb = length P0"
        and ieb: "eb = length P0 + length O1"
        and isc: "sc = length P0 + length O1 + length P1"
        and iec: "ec = length P0 + length O1 + length P1 + length O2"
        and isa: "sa = length P0 + length O1 + length P1 + length O2 + length P2"
        and iea: "ea = length P0 + length O1 + length P1 + length O2 + length P2 + length O3"
        and sl: "slice t sb eb = O1" "slice t sc ec = O2" "slice t sa ea = O3"
      have ne: "O1 \<noteq> []" "O2 \<noteq> []" "O3 \<noteq> []"
        using sp isb ieb isc iec isa iea by auto
      have r: "t3 = P0 @ vb @ P1 @ vc @ P2 @ va @ P3"
        by (rule splice_312 [OF t ne isa iea isb ieb isc iec f1 t1 f2 t2 t3])
      have s: "{(length P0, O1, vb), (length (P0 @ O1 @ P1), O2, vc),
            (length (P0 @ O1 @ P1 @ O2 @ P2), O3, va)} =
           {(sa, slice t sa ea, va), (sb, slice t sb eb, vb), (sc, slice t sc ec, vc)}"
        unfolding sl unfolding isa isb isc by (simp add: insert_commute add.assoc)
      show ?thesis
        apply (intro exI conjI)
          apply (rule t)
         apply (rule r)
        apply (rule s)
        done
    qed
  next
    case c321
    have le: "sc \<le> ec" "ec \<le> sb" "sb \<le> eb" "eb \<le> sa" "sa \<le> ea" "ea \<le> length t"
      using sp c321 by simp_all
    show ?thesis
    proof (rule three_spans_cases [OF le])
      fix P0 O1 P1 O2 P2 O3 P3
      assume t: "t = P0 @ O1 @ P1 @ O2 @ P2 @ O3 @ P3"
        and isc: "sc = length P0"
        and iec: "ec = length P0 + length O1"
        and isb: "sb = length P0 + length O1 + length P1"
        and ieb: "eb = length P0 + length O1 + length P1 + length O2"
        and isa: "sa = length P0 + length O1 + length P1 + length O2 + length P2"
        and iea: "ea = length P0 + length O1 + length P1 + length O2 + length P2 + length O3"
        and sl: "slice t sc ec = O1" "slice t sb eb = O2" "slice t sa ea = O3"
      have ne: "O1 \<noteq> []" "O2 \<noteq> []" "O3 \<noteq> []"
        using sp isc iec isb ieb isa iea by auto
      have r: "t3 = P0 @ vc @ P1 @ vb @ P2 @ va @ P3"
        by (rule splice_321 [OF t ne isa iea isb ieb isc iec f1 t1 f2 t2 t3])
      have s: "{(length P0, O1, vc), (length (P0 @ O1 @ P1), O2, vb),
            (length (P0 @ O1 @ P1 @ O2 @ P2), O3, va)} =
           {(sa, slice t sa ea, va), (sb, slice t sb eb, vb), (sc, slice t sc ec, vc)}"
        unfolding sl unfolding isa isb isc by (simp add: insert_commute add.assoc)
      show ?thesis
        apply (intro exI conjI)
          apply (rule t)
         apply (rule r)
        apply (rule s)
        done
    qed
  qed
qed

lemma search_after_replace_at:
  assumes j: "search (file_regex Kj) t = Some [s, e]"
    and kc: "Kk \<noteq> []" "Kj \<noteq> []" "hd Kk = CHR ''<''" "\<not> is_space (last Kk)"
      "\<not> is_space (last Kj)" "\<not> suffix Kk Kj" "\<not> suffix Kj Kk"
      "list_all (\<lambda>(a, b). \<not> (a = CHR ''>'' \<and> cmem DigitOrDot b)) (zip Kk (tl Kk))"
    and v: "v \<noteq> []" "cmem DigitOrDot (hd v)" "CHR ''<'' \<notin> set v"
    and f: "f = (\<lambda>i. if i \<le> s then i else i - e + (s + length v))"
    and t': "t' = take s t @ v @ drop e t"
    and k: "search (file_regex Kk) t = Some [a, b]"
  shows "search (file_regex Kk) t' = Some [f a, f b]" "a < b" "b \<le> s \<or> e \<le> a"
    "b \<le> length t" "s < e" "e \<le> length t"
proof -
  note n = search_after_replace [OF j kc v]
  from n [THEN conjunct1] show "search (file_regex Kk) t' = Some [f a, f b]"
    unfolding t' f k by simp
  from n [THEN conjunct2, THEN conjunct1] k
  have "\<exists>a' b'. [a, b] = [a', b'] \<and> a' < b' \<and> (b' \<le> s \<or> e \<le> a') \<and> b' \<le> length t"
    by simp
  then show "a < b" "b \<le> s \<or> e \<le> a" "b \<le> length t" by auto
  from n [THEN conjunct2, THEN conjunct2] show "s < e" "e \<le> length t" by simp_all
qed

lemma key_facts:
  "''<key>CFBundleShortVersionString</key>'' \<noteq> []"
  "''<key>CFBundleVersion</key>'' \<noteq> []"
  "''<key>OWSBundleVersion4</key>'' \<noteq> []"
  "hd ''<key>CFBundleVersion</key>'' = CHR ''<''"
  "hd ''<key>OWSBundleVersion4</key>'' = CHR ''<''"
  "\<not> is_space (last ''<key>CFBundleShortVersionString</key>'')"
  "\<not> is_space (last ''<key>CFBundleVersion</key>'')"
  "\<not> is_space (last ''<key>OWSBundleVersion4</key>'')"
  by (simp_all add: is_space_def)

lemma key_suffixes:
  "\<not> suffix ''<key>CFBundleVersion</key>'' ''<key>CFBundleShortVersionString</key>''"
  "\<not> suffix ''<key>CFBundleShortVersionString</key>'' ''<key>CFBundleVersion</key>''"
  "\<not> suffix ''<key>OWSBundleVersion4</key>'' ''<key>CFBundleShortVersionString</key>''"
  "\<not> suffix ''<key>CFBundleShortVersionString</key>'' ''<key>OWSBundleVersion4</key>''"
  "\<not> suffix ''<key>OWSBundleVersion4</key>'' ''<key>CFBundleVersion</key>''"
  "\<not> suffix ''<key>CFBundleVersion</key>'' ''<key>OWSBundleVersion4</key>''"
  by (simp_all add: suffix_to_prefix)

lemma key_pairs:
  "list_all (\<lambda>(a, b). \<not> (a = CHR ''>'' \<and> cmem DigitOrDot b))
     (zip ''<key>CFBundleVersion</key>'' (tl ''<key>CFBundleVersion</key>''))"
  "list_all (\<lambda>(a, b). \<not> (a = CHR ''>'' \<and> cmem DigitOrDot b))
     (zip ''<key>OWSBundleVersion4</key>'' (tl ''<key>OWSBundleVersion4</key>''))"
  by (simp_all add: is_digit_def)

lemma search_version_1_Some:
  assumes "search regex_version_1 s = Some m"
  shows "\<exists>a e. digits a \<and> (e = [] \<or> e = [CHR 0x0A]) \<and> s = a @ e"
proof -
  define a where "a = takeWhile is_digit s"
  define e where "e = dropWhile is_digit s"
  from assms have "a \<noteq> []" "e = [] \<or> e = [CHR 0x0A]"
    unfolding regex_version_1_def search_Bol a_def e_def
    by (auto simp: plus_digit_gclose_eol split: if_splits)
  moreover have "list_all is_digit a" unfolding a_def list_all_iff by (auto dest: set_takeWhileD)
  moreover have "s = a @ e" by (simp add: a_def e_def)
  ultimately show ?thesis unfolding digits_def by blast
qed

lemma digits_value:
  assumes "digits a" "set x \<subseteq> {CHR ''.'', CHR 0x0A} \<union> Collect is_digit"
  shows "a @ x \<noteq> [] \<and> cmem DigitOrDot (hd (a @ x)) \<and> CHR ''<'' \<notin> set (a @ x)"
proof -
  from assms(1) obtain c cs where a: "a = c # cs" and c: "is_digit c"
    and cs: "\<forall>y\<in>set cs. is_digit y"
    by (cases a) (auto simp: digits_def list_all_iff)
  have "\<not> is_digit CHR ''<''" by (simp add: is_digit_def)
  with a c cs assms(2) show ?thesis by auto
qed

lemma valid_3_value:
  assumes "is_valid_version_3 r"
  shows "r \<noteq> []" "cmem DigitOrDot (hd r)" "CHR ''<'' \<notin> set r"
proof -
  from assms obtain m where "search regex_version_3 r = Some m"
    unfolding is_valid_version_3_def by auto
  then obtain a b c e where d: "digits a" "digits b" "digits c" and e: "e = [] \<or> e = [CHR 0x0A]"
    and r: "r = a @ ''.'' @ b @ ''.'' @ c @ e"
    unfolding search_version_3_iff by blast
  have "set (''.'' @ b @ ''.'' @ c @ e) \<subseteq> {CHR ''.'', CHR 0x0A} \<union> Collect is_digit"
    using d e by (auto simp: digits_def list_all_iff)
  from digits_value [OF d(1) this] r
  show "r \<noteq> []" "cmem DigitOrDot (hd r)" "CHR ''<'' \<notin> set r" by simp_all
qed

lemma valid_1_value:
  assumes "is_valid_version_1 b"
  shows "b \<noteq> []" "cmem DigitOrDot (hd b)" "CHR ''<'' \<notin> set b"
proof -
  from assms obtain m where "search regex_version_1 b = Some m"
    unfolding is_valid_version_1_def by auto
  from search_version_1_Some [OF this] obtain a e where d: "digits a"
    and e: "e = [] \<or> e = [CHR 0x0A]" and b: "b = a @ e" by blast
  have "set e \<subseteq> {CHR ''.'', CHR 0x0A} \<union> Collect is_digit" using e by auto
  from digits_value [OF d this] b
  show "b \<noteq> []" "cmem DigitOrDot (hd b)" "CHR ''<'' \<notin> set b" by simp_all
qed

lemma rewrite_text_spans:
  assumes v: "is_valid_version_3 r" "is_valid_version_1 b1"
    and m1: "search (file_regex ''<key>CFBundleShortVersionString</key>'') text = Some [s1, e1]"
    and m2: "search (file_regex ''<key>CFBundleVersion</key>'') text = Some [s2, e2]"
    and m3: "search (file_regex ''<key>OWSBundleVersion4</key>'') text = Some [s3, e3]"
  shows "\<exists>p0 o1 p1 o2 p2 o3 p3 n1 n2 n3.
           text = p0 @ o1 @ p1 @ o2 @ p2 @ o3 @ p3 \<and>
           rewrite_text text r b1 b4 = Inr (p0 @ n1 @ p1 @ n2 @ p2 @ n3 @ p3) \<and>
           {(length p0, o1, n1), (length (p0 @ o1 @ p1), o2, n2),
            (length (p0 @ o1 @ p1 @ o2 @ p2), o3, n3)} =
           {(s1, slice text s1 e1, r), (s2, slice text s2 e2, b1), (s3, slice text s3 e3, b4)}"
proof -
  let ?K1 = "''<key>CFBundleShortVersionString</key>''"
  let ?K2 = "''<key>CFBundleVersion</key>''"
  let ?K3 = "''<key>OWSBundleVersion4</key>''"
  define f1 where "f1 = (\<lambda>i. if i \<le> s1 then i else i - e1 + (s1 + length r))"
  define t1 where "t1 = take s1 text @ r @ drop e1 text"
  define f2 where "f2 = (\<lambda>i. if i \<le> f1 s2 then i else i - f1 e2 + (f1 s2 + length b1))"
  define t2 where "t2 = take (f1 s2) t1 @ b1 @ drop (f1 e2) t1"
  define t3 where "t3 = take (f2 (f1 s3)) t2 @ b4 @ drop (f2 (f1 e3)) t2"
  note vr = valid_3_value [OF v(1)]
  note vb = valid_1_value [OF v(2)]
  note n12 = search_after_replace_at [OF m1 key_facts(2,1,4,7,6) key_suffixes(1,2) key_pairs(1)
      vr f1_def t1_def m2]
  note n13 = search_after_replace_at [OF m1 key_facts(3,1,5,8,6) key_suffixes(3,4) key_pairs(2)
      vr f1_def t1_def m3]
  note n23 = search_after_replace_at [OF m2 key_facts(3,2,5,8,7) key_suffixes(5,6) key_pairs(2)
      vb refl refl m3]
  note n23' = search_after_replace_at [OF n12(1) key_facts(3,2,5,8,7) key_suffixes(5,6) key_pairs(2)
      vb f2_def t2_def n13(1)]
  have r1: "replace_value ?K1 text r = Inr t1"
    unfolding replace_value_def m1 t1_def by simp
  have r2: "replace_value ?K2 t1 b1 = Inr t2"
    unfolding replace_value_def n12(1) t2_def by simp
  have r3: "replace_value ?K3 t2 b4 = Inr t3"
    unfolding replace_value_def n23'(1) t3_def by simp
  have rw: "rewrite_text text r b1 b4 = Inr t3"
    unfolding rewrite_text_def r1 sum.case r2 r3 ..
  have sp: "s1 < e1" "s2 < e2" "s3 < e3" "e1 \<le> length text" "e2 \<le> length text"
    "e3 \<le> length text"
    using n12(2,4,5,6) n13(2,4) by simp_all
  have d: "e2 \<le> s1 \<or> e1 \<le> s2" "e3 \<le> s1 \<or> e1 \<le> s3" "e3 \<le> s2 \<or> e2 \<le> s3"
    using n12(3) n13(3) n23(3) by simp_all
  from three_splices [OF sp d f1_def t1_def f2_def t2_def t3_def]
  show ?thesis unfolding rw sum.inject .
qed

subsection \<open>What the 4-component pattern accepts\<close>









section \<open>Properties\<close>

text \<open>
  C1: the next versions are a function of the current release version, the current
  build version and the optional target only.  With a target whose stripped text parses to
  \<open>v\<close>, the new release version is \<open>v\<close>, the new build version is 0 and the new
  4-component version is the components of \<open>v\<close> followed by 0.  Without a target, the
  release version is unchanged, the build version is the current one plus 1, and the
  4-component version is the current release version's components followed by the new
  build version.
\<close>

theorem version_policy_modes:
  "(parse_version_3 (strip t) = Inr v \<longrightarrow>
      version_policy old3 old1 (Some t) =
        Inr (v, Version1 0, Version4 (major v) (minor v) (patch v) 0) \<and>
      formatted1 (Version1 0) = ''0'' \<and>
      formatted4 (Version4 (major v) (minor v) (patch v) 0) = formatted3 v @ ''.0'') \<and>
   version_policy old3 old1 None =
     Inr (old3, Version1 (build old1 + 1),
          Version4 (major old3) (minor old3) (patch old3) (build old1 + 1)) \<and>
   formatted4 (Version4 (major old3) (minor old3) (patch old3) (build old1 + 1)) =
     formatted3 old3 @ ''.'' @ formatted1 (Version1 (build old1 + 1))"
proof -
  have f0: "str_int 0 = ''0''" by (simp add: str_int_def str_nat_0)
  have explicit: "version_policy old3 old1 (Some t) =
        Inr (v, Version1 0, Version4 (major v) (minor v) (patch v) 0)"
    if p: "parse_version_3 (strip t) = Inr v"
  proof -
    have "t \<noteq> []" using p parse_version_3_empty by (auto simp: strip_def)
    with p show ?thesis by (simp add: version_policy_def)
  qed
  have f4: "formatted4 (Version4 (major w) (minor w) (patch w) b) = formatted3 w @ ''.'' @ str_int b"
    for w b by (cases w) simp
  have inc: "version_policy old3 old1 None =
     Inr (old3, Version1 (build old1 + 1),
          Version4 (major old3) (minor old3) (patch old3) (build old1 + 1))"
    by (simp add: version_policy_def)
  have f1: "formatted1 (Version1 0) = ''0''" using f0 by simp
  have f40: "formatted4 (Version4 (major v) (minor v) (patch v) 0) = formatted3 v @ ''.0''"
    unfolding f4 f0 by simp
  have f4i: "formatted4 (Version4 (major old3) (minor old3) (patch old3) (build old1 + 1)) =
     formatted3 old3 @ ''.'' @ formatted1 (Version1 (build old1 + 1))"
    unfolding f4 by simp
  from explicit inc f1 f40 f4i show ?thesis by blast
qed

text \<open>
  The release 5.19.0 with build 42: the target 6.0.0 gives 6.0.0, 0 and 6.0.0.0; no target
  gives 5.19.0, 43 and 5.19.0.43.
\<close>

theorem version_policy_modes_witness:
  "parse_version_3 (strip ''6.0.0'') = Inr (Version3 6 0 0) \<and>
   version_policy (Version3 5 19 0) (Version1 42) (Some ''6.0.0'') =
     Inr (Version3 6 0 0, Version1 0, Version4 6 0 0 0) \<and>
   version_policy (Version3 5 19 0) (Version1 42) None =
     Inr (Version3 5 19 0, Version1 43, Version4 5 19 0 43)"
proof -
  have h: "parse_version_3 (strip ''6.0.0'') = Inr (Version3 6 0 0)" by code_simp
  show ?thesis
    using version_policy_modes [of "''6.0.0''" "Version3 6 0 0" "Version3 5 19 0" "Version1 42"] h
    by simp
qed

text \<open>
  C4 as stated fails for the 4-component form: the script has no operation that parses
  four components.  A \<open>Version4\<close> is only built from the components of a \<open>Version3\<close>
  and a build number, and formatted.  The canonical string \<^verbatim>\<open>5.19.0.42\<close>, which is
  what \<^verbatim>\<open>Version4(5, 19, 0, 42).formatted()\<close> gives, is rejected by
  \<^verbatim>\<open>parse_version_3\<close>, and a run given it as target fails.
\<close>

theorem four_components_not_parsed:
  "canonical ''5'' \<and> canonical ''19'' \<and> canonical ''0'' \<and> canonical ''42'' \<and>
   formatted4 (Version4 5 19 0 42) = ''5.19.0.42'' \<and>
   parse_version_3 ''5.19.0.42'' = Inl could_not_parse \<and>
   version_policy (Version3 5 19 0) (Version1 42) (Some ''5.19.0.42'') = Inl could_not_parse"
  by code_simp

text \<open>
  C4, as amended: parsing and formatting round-trip for the forms the script parses.  For
  canonical components, parsing the 1-component and the 3-component string and formatting
  the result gives the string back, and for non-negative components parsing the formatted
  1-component and 3-component value gives the value back.  The 4-component form is
  formatted only: the value built from the parsed 3-component string and the parsed build
  number formats to the four components joined by dots, the format of a 4-component value
  is the format of its first three components, a dot and the format of its build number,
  and the 4-component validity check accepts it.
\<close>

theorem parse_format_round_trip:
  assumes "canonical a" "canonical b" "canonical c" "canonical d"
    and "0 \<le> x" "0 \<le> y" "0 \<le> z" "0 \<le> u"
  shows "(\<exists>v. parse_version_1 a = Inr v \<and> formatted1 v = a) \<and>
     (\<exists>v. parse_version_3 (a @ ''.'' @ b @ ''.'' @ c) = Inr v \<and>
          formatted3 v = a @ ''.'' @ b @ ''.'' @ c) \<and>
     (\<exists>v3 v1. parse_version_3 (a @ ''.'' @ b @ ''.'' @ c) = Inr v3 \<and> parse_version_1 d = Inr v1 \<and>
          formatted4 (Version4 (major v3) (minor v3) (patch v3) (build v1)) =
            a @ ''.'' @ b @ ''.'' @ c @ ''.'' @ d) \<and>
     is_valid_version_4 (a @ ''.'' @ b @ ''.'' @ c @ ''.'' @ d) \<and>
     parse_version_1 (formatted1 (Version1 x)) = Inr (Version1 x) \<and>
     parse_version_3 (formatted3 (Version3 x y z)) = Inr (Version3 x y z) \<and>
     parse_version_1 (formatted1 (Version1 u)) = Inr (Version1 u) \<and>
     formatted4 (Version4 x y z u) = formatted3 (Version3 x y z) @ ''.'' @ formatted1 (Version1 u) \<and>
     is_valid_version_4 (formatted4 (Version4 x y z u))"
proof -
  from assms(1-4) have dg: "digits a" "digits b" "digits c" "digits d"
    by (simp_all add: canonical_digits)
  have p1: "parse_version_1 s = Inr (Version1 (int (nat_of_digits s)))" if "canonical s" for s
    using that parse_version_1_digits [OF canonical_digits [OF that]] by simp
  have p3: "parse_version_3 (a @ CHR ''.'' # b @ CHR ''.'' # c) =
      Inr (Version3 (int (nat_of_digits a)) (int (nat_of_digits b)) (int (nat_of_digits c)))"
    using parse_version_3_dotted [OF dg(1-3), of "[]"] assms(1-3) by simp
  have c1: ?thesis if "x = int i" "y = int j" "z = int k" "u = int l" for i j k l
  proof -
    have q1: "parse_version_1 (str_nat n) = Inr (Version1 (int n))" for n
      using p1 [OF canonical_str_nat, of n] by (simp add: nat_of_digits_str_nat)
    have q3: "parse_version_3 (str_nat i @ CHR ''.'' # str_nat j @ CHR ''.'' # str_nat k) =
        Inr (Version3 (int i) (int j) (int k))"
      using parse_version_3_dotted [OF digits_str_nat digits_str_nat digits_str_nat, of "[]" i j k]
      by (simp add: canonical_str_nat nat_of_digits_str_nat)
    have v4: "is_valid_version_4 (a @ CHR ''.'' # b @ CHR ''.'' # c @ CHR ''.'' # d)"
      unfolding is_valid_version_4_def by (rule rmatch_version_4_dotted [OF dg])
    have w4: "is_valid_version_4
        (str_nat i @ CHR ''.'' # str_nat j @ CHR ''.'' # str_nat k @ CHR ''.'' # str_nat l)"
      unfolding is_valid_version_4_def
      by (rule rmatch_version_4_dotted [OF digits_str_nat digits_str_nat digits_str_nat digits_str_nat])
    from q1 q3 v4 w4 show ?thesis
      using that assms(1-4) p3
      by (simp add: p1 str_int_nat str_nat_nat_of_digits)
  qed
  from assms(5-8) obtain i j k l where "x = int i" "y = int j" "z = int k" "u = int l"
    using nonneg_int_cases by metis
  then show ?thesis by (rule c1)
qed

text \<open>
  The round trip at 5, 5.19.0 and 5.19.0.42.
\<close>

theorem parse_format_round_trip_witness:
  "canonical ''5'' \<and> canonical ''19'' \<and> canonical ''0'' \<and> canonical ''42'' \<and>
   (\<exists>v. parse_version_1 ''5'' = Inr v \<and> formatted1 v = ''5'') \<and>
   (\<exists>v. parse_version_3 ''5.19.0'' = Inr v \<and> formatted3 v = ''5.19.0'') \<and>
   is_valid_version_4 ''5.19.0.42'' \<and>
   parse_version_1 (formatted1 (Version1 42)) = Inr (Version1 42) \<and>
   parse_version_3 (formatted3 (Version3 5 19 0)) = Inr (Version3 5 19 0) \<and>
   formatted4 (Version4 5 19 0 42) = formatted3 (Version3 5 19 0) @ ''.'' @ formatted1 (Version1 42) \<and>
   is_valid_version_4 (formatted4 (Version4 5 19 0 42))"
proof -
  have c: "canonical ''5''" "canonical ''19''" "canonical ''0''" "canonical ''42''"
    by (simp_all add: canonical_def is_digit_def)
  from parse_format_round_trip [OF c, of 42 19 0 42] c show ?thesis
    using parse_format_round_trip [OF c, of 5 19 0 42] by simp
qed

text \<open>
  C5: a string of three decimal components one of which has a leading zero, and a
  decimal string with a leading zero, are rejected by \<^verbatim>\<open>parse_version_3\<close> and by
  \<^verbatim>\<open>parse_version_1\<close> through \<^verbatim>\<open>fail('Could not parse .plist')\<close>.
\<close>

theorem leading_zero_rejected:
  "(digits a \<and> digits b \<and> digits c \<and> (leading_zero a \<or> leading_zero b \<or> leading_zero c) \<longrightarrow>
      parse_version_3 (a @ ''.'' @ b @ ''.'' @ c) = Inl could_not_parse) \<and>
   (leading_zero s \<longrightarrow> parse_version_1 s = Inl could_not_parse)"
proof -
  have "parse_version_3 (a @ CHR ''.'' # b @ CHR ''.'' # c) = Inl could_not_parse"
    if "digits a" "digits b" "digits c" "leading_zero a \<or> leading_zero b \<or> leading_zero c"
    using parse_version_3_dotted [OF that(1-3), of "[]"] that(4)
    by (auto dest: leading_zero_not_canonical)
  moreover have "parse_version_1 s = Inl could_not_parse" if "leading_zero s"
    using parse_version_1_digits [OF leading_zero_digits [OF that]]
      leading_zero_not_canonical [OF that] by simp
  ultimately show ?thesis by simp
qed

text \<open>
  The strings \<^verbatim>\<open>01.2.3\<close> and \<^verbatim>\<open>07\<close> are rejected.
\<close>

theorem leading_zero_rejected_witness:
  "digits ''01'' \<and> digits ''2'' \<and> digits ''3'' \<and> leading_zero ''01'' \<and> leading_zero ''07'' \<and>
   parse_version_3 ''01.2.3'' = Inl could_not_parse \<and>
   parse_version_1 ''07'' = Inl could_not_parse"
proof -
  have h: "digits ''01''" "digits ''2''" "digits ''3''" "leading_zero ''01''" "leading_zero ''07''"
    by (simp_all add: digits_def leading_zero_def is_digit_def)
  with leading_zero_rejected [of "''01''" "''2''" "''3''" "''07''"] show ?thesis by simp
qed





text \<open>
  C8: \<^verbatim>\<open>set_versions\<close> on a descriptor in which the three patterns are found, with
  valid new versions, succeeds and writes a text that differs from the original in three
  spans only.  The original text is \<open>p0 o1 p1 o2 p2 o3 p3\<close> and the written text is
  \<open>p0 n1 p1 n2 p2 n3 p3\<close>, where the three spans, each with its offset, its old text and
  its new text, are the three value spans found in the original text, with the new release
  version, the new build version and the new 4-component version, in the order the spans
  have in the file.  The script makes the three replacements one after the other, each
  search on the text the replacement before it left: the theorem states that these searches
  find the spans of the original text.
\<close>

theorem set_versions_frame:
  assumes f: "files w p = Some text"
    and v: "is_valid_version_3 r" "is_valid_version_1 b1" "is_valid_version_4 b4"
    and m1: "search (file_regex ''<key>CFBundleShortVersionString</key>'') text = Some [s1, e1]"
    and m2: "search (file_regex ''<key>CFBundleVersion</key>'') text = Some [s2, e2]"
    and m3: "search (file_regex ''<key>OWSBundleVersion4</key>'') text = Some [s3, e3]"
  shows "\<exists>p0 o1 p1 o2 p2 o3 p3 n1 n2 n3.
     text = p0 @ o1 @ p1 @ o2 @ p2 @ o3 @ p3 \<and>
     set_versions w p r b1 b4 =
       Inr (write_file w p (p0 @ n1 @ p1 @ n2 @ p2 @ n3 @ p3)) \<and>
     {(length p0, o1, n1), (length (p0 @ o1 @ p1), o2, n2),
      (length (p0 @ o1 @ p1 @ o2 @ p2), o3, n3)} =
     {(s1, slice text s1 e1, r), (s2, slice text s2 e2, b1), (s3, slice text s3 e3, b4)}"
proof -
  from rewrite_text_spans [OF v(1,2) m1 m2 m3, of b4]
  obtain p0 o1 p1 o2 p2 o3 p3 n1 n2 n3 where
    t: "text = p0 @ o1 @ p1 @ o2 @ p2 @ o3 @ p3"
    and rw: "rewrite_text text r b1 b4 = Inr (p0 @ n1 @ p1 @ n2 @ p2 @ n3 @ p3)"
    and sp: "{(length p0, o1, n1), (length (p0 @ o1 @ p1), o2, n2),
        (length (p0 @ o1 @ p1 @ o2 @ p2), o3, n3)} =
       {(s1, slice text s1 e1, r), (s2, slice text s2 e2, b1), (s3, slice text s3 e3, b4)}"
    by (elim exE conjE)
  have sv: "set_versions w p r b1 b4 = Inr (write_file w p (p0 @ n1 @ p1 @ n2 @ p2 @ n3 @ p3))"
    unfolding set_versions_def read_file_def f using v rw by simp
  show ?thesis
    apply (rule exI [of _ p0], rule exI [of _ o1], rule exI [of _ p1], rule exI [of _ o2],
        rule exI [of _ p2], rule exI [of _ o3], rule exI [of _ p3], rule exI [of _ n1],
        rule exI [of _ n2], rule exI [of _ n3])
    apply (intro conjI)
      apply (rule t)
     apply (rule sv)
    apply (rule sp)
    done
qed

text \<open>
  The descriptor with 5.19.0, 42 and 5.19.0.42, rewritten to 6.0.0, 0 and 6.0.0.0.
\<close>

theorem set_versions_frame_witness:
  "files (example_world example_plist) [''repo'', ''Signal'', ''Signal-Info.plist''] =
     Some example_plist \<and>
   is_valid_version_3 ''6.0.0'' \<and> is_valid_version_1 ''0'' \<and> is_valid_version_4 ''6.0.0.0'' \<and>
   search (file_regex ''<key>CFBundleShortVersionString</key>'') example_plist = Some [45, 51] \<and>
   search (file_regex ''<key>CFBundleVersion</key>'') example_plist = Some [94, 96] \<and>
   search (file_regex ''<key>OWSBundleVersion4</key>'') example_plist = Some [141, 150] \<and>
   (\<exists>p0 o1 p1 o2 p2 o3 p3 n1 n2 n3.
     example_plist = p0 @ o1 @ p1 @ o2 @ p2 @ o3 @ p3 \<and>
     set_versions (example_world example_plist) [''repo'', ''Signal'', ''Signal-Info.plist'']
         ''6.0.0'' ''0'' ''6.0.0.0'' =
       Inr (write_file (example_world example_plist) [''repo'', ''Signal'', ''Signal-Info.plist'']
              (p0 @ n1 @ p1 @ n2 @ p2 @ n3 @ p3)) \<and>
     {(length p0, o1, n1), (length (p0 @ o1 @ p1), o2, n2),
      (length (p0 @ o1 @ p1 @ o2 @ p2), o3, n3)} =
     {(45, slice example_plist 45 51, ''6.0.0''), (94, slice example_plist 94 96, ''0''),
      (141, slice example_plist 141 150, ''6.0.0.0'')})"
proof -
  have f: "files (example_world example_plist) [''repo'', ''Signal'', ''Signal-Info.plist''] =
     Some example_plist" by (simp add: example_world_def)
  have v: "is_valid_version_3 ''6.0.0''" "is_valid_version_1 ''0''" "is_valid_version_4 ''6.0.0.0''"
    by code_simp+
  have m1: "search (file_regex ''<key>CFBundleShortVersionString</key>'') example_plist = Some [45, 51]"
    by code_simp
  have m2: "search (file_regex ''<key>CFBundleVersion</key>'') example_plist = Some [94, 96]"
    by code_simp
  have m3: "search (file_regex ''<key>OWSBundleVersion4</key>'') example_plist = Some [141, 150]"
    by code_simp
  note c = set_versions_frame [OF f v m1 m2 m3]
  show ?thesis
    apply (intro conjI)
           apply (rule f)
          apply (rule v(1))
         apply (rule v(2))
        apply (rule v(3))
       apply (rule m1)
      apply (rule m2)
     apply (rule m3)
    apply (rule c)
    done
qed

text \<open>
  C9: a run with the target 6.0.0 and the nightly flag alone, on 2024-01-15, that ends
  without error has run three commands, in this order: \<^verbatim>\<open>git add .\<close>,
  \<^verbatim>\<open>git commit -m\<close> with the message \<^verbatim>\<open>"Bump build to 6.0.0.0." (nightly-01-15-2024)\<close>,
  and \<^verbatim>\<open>git tag 6.0.0.0-nightly\<close>.  The message contains 6.0.0.0 and 01-15-2024.
\<close>

theorem nightly_tag_and_message:
  assumes e: "version e = Some ''6.0.0''" "nightly e" "\<not> internal e" "\<not> beta e"
      "today e = \<lparr>year = 2024, month = 1, day = 15\<rparr>"
    and run: "main e w = (None, w')"
  shows "commands w' = commands w @
       [[''git'', ''add'', ''.''],
        [''git'', ''commit'', ''-m'', ''\"Bump build to 6.0.0.0.\" (nightly-01-15-2024)''],
        [''git'', ''tag'', ''6.0.0.0-nightly'']] \<and>
     sublist ''6.0.0.0'' ''\"Bump build to 6.0.0.0.\" (nightly-01-15-2024)'' \<and>
     sublist ''01-15-2024'' ''\"Bump build to 6.0.0.0.\" (nightly-01-15-2024)''"
proof -
  from main_reaches_conversion [OF run] obtain root w1 where
    conv: "convert_all e w
       [root @ [''Signal'', ''Signal-Info.plist''],
        root @ [''SignalShareExtension'', ''Info.plist''],
        root @ [''NotificationServiceExtension'', ''Info.plist'']] = (None, w1)"
    and rest: "(case get_versions w1 (root @ [''Signal'', ''Signal-Info.plist'']) of
        Inl err \<Rightarrow> (Some err, w1)
      | Inr (old_release_version, old_build_version_1) \<Rightarrow>
     (case version_policy old_release_version old_build_version_1 (version e) of
        Inl err \<Rightarrow> (Some err, w1)
      | Inr (new_release_version_3, new_build_version_1, new_build_version_4) \<Rightarrow>
     (case set_versions_all w1
             [root @ [''Signal'', ''Signal-Info.plist''],
              root @ [''SignalShareExtension'', ''Info.plist''],
              root @ [''NotificationServiceExtension'', ''Info.plist'']]
             (formatted3 new_release_version_3)
             (formatted1 new_build_version_1) (formatted4 new_build_version_4) of
        (Some err, w2) \<Rightarrow> (Some err, w2)
      | (None, w2) \<Rightarrow> git_steps e w2 (formatted4 new_build_version_4)))) = (None, w')"
    by auto
  let ?ps = "[root @ [''Signal'', ''Signal-Info.plist''],
              root @ [''SignalShareExtension'', ''Info.plist''],
              root @ [''NotificationServiceExtension'', ''Info.plist'']]"
  have f4: "formatted4 (Version4 6 0 0 0) = ''6.0.0.0''" by code_simp
  obtain sres w2 where sv: "set_versions_all w1 ?ps (formatted3 (Version3 6 0 0))
      (formatted1 (Version1 0)) (formatted4 (Version4 6 0 0 0)) = (sres, w2)"
    by (cases "set_versions_all w1 ?ps (formatted3 (Version3 6 0 0))
      (formatted1 (Version1 0)) (formatted4 (Version4 6 0 0 0))")
  obtain o3 o1 where gv: "get_versions w1 (root @ [''Signal'', ''Signal-Info.plist'']) = Inr (o3, o1)"
  proof (cases "get_versions w1 (root @ [''Signal'', ''Signal-Info.plist''])")
    case (Inl err)
    with rest show ?thesis by simp
  next
    case (Inr p)
    then show ?thesis by (cases p) (rule that, simp)
  qed
  from rest have "(case (sres, w2) of
        (Some err, w2) \<Rightarrow> (Some err, w2)
      | (None, w2) \<Rightarrow> git_steps e w2 (formatted4 (Version4 6 0 0 0))) = (None, w')"
    unfolding gv e(1) policy_6_0_0 sum.case prod.case sv .
  then have g: "sres = None \<and> git_steps e w2 ''6.0.0.0'' = (None, w')"
    unfolding f4 by (cases sres) simp_all
  note sv = sv [unfolded f4]
  have msg: "commit_message (internal e) (beta e) (nightly e) (today e) ''6.0.0.0'' =
      Inr ''\"Bump build to 6.0.0.0.\" (nightly-01-15-2024)''"
  proof -
    have "commit_message False False True \<lparr>year = 2024, month = 1, day = 15\<rparr> ''6.0.0.0'' =
      Inr ''\"Bump build to 6.0.0.0.\" (nightly-01-15-2024)''" by code_simp
    with e show ?thesis by simp
  qed
  have tag: "tag_name (internal e) (beta e) (nightly e) ''6.0.0.0'' = ''6.0.0.0-nightly''"
    using e by (simp add: tag_name_def)
  from git_steps_commands [OF g [THEN conjunct2]] msg tag
  have "commands w' = commands w2 @
       [[''git'', ''add'', ''.''],
        [''git'', ''commit'', ''-m'', ''\"Bump build to 6.0.0.0.\" (nightly-01-15-2024)''],
        [''git'', ''tag'', ''6.0.0.0-nightly'']]" by simp
  moreover have "commands w2 = commands w"
    using set_versions_all_commands [OF sv] convert_all_commands [OF conv] by simp
  moreover have "sublist ''6.0.0.0'' ''\"Bump build to 6.0.0.0.\" (nightly-01-15-2024)''"
    unfolding sublist_def
    by (rule exI [of _ "''\"Bump build to ''"], rule exI [of _ "''.\" (nightly-01-15-2024)''"]) simp
  moreover have "sublist ''01-15-2024'' ''\"Bump build to 6.0.0.0.\" (nightly-01-15-2024)''"
    unfolding sublist_def
    by (rule exI [of _ "''\"Bump build to 6.0.0.0.\" (nightly-''"], rule exI [of _ "'')''"]) simp
  ultimately show ?thesis by simp
qed

text \<open>
  Such a run in the example repository: it ends without error and runs the three commands.
\<close>

theorem nightly_tag_and_message_witness:
  "version example_env_nightly = Some ''6.0.0'' \<and> nightly example_env_nightly \<and>
   \<not> internal example_env_nightly \<and> \<not> beta example_env_nightly \<and>
   today example_env_nightly = \<lparr>year = 2024, month = 1, day = 15\<rparr> \<and>
   fst (main example_env_nightly (example_world example_plist)) = None \<and>
   commands (snd (main example_env_nightly (example_world example_plist))) =
       [[''git'', ''add'', ''.''],
        [''git'', ''commit'', ''-m'', ''\"Bump build to 6.0.0.0.\" (nightly-01-15-2024)''],
        [''git'', ''tag'', ''6.0.0.0-nightly'']]"
proof -
  have e: "version example_env_nightly = Some ''6.0.0''" "nightly example_env_nightly"
    "\<not> internal example_env_nightly" "\<not> beta example_env_nightly"
    "today example_env_nightly = \<lparr>year = 2024, month = 1, day = 15\<rparr>"
    by (simp_all add: example_env_nightly_def)
  have f: "fst (main example_env_nightly (example_world example_plist)) = None" by code_simp
  then have run: "main example_env_nightly (example_world example_plist) =
     (None, snd (main example_env_nightly (example_world example_plist)))"
    by (simp add: prod_eq_iff)
  have c: "commands (example_world example_plist) = []" by (simp add: example_world_def)
  from nightly_tag_and_message [OF e run] e f c show ?thesis by simp
qed

text \<open>
  C10: the target is stripped before it is parsed.  When the stripped target is a
  canonical 3-component version, the run computes the same versions for the target as for
  its stripped form, although \<^verbatim>\<open>parse_version_3\<close> itself rejects a string with
  surrounding whitespace.
\<close>

theorem target_is_stripped:
  assumes "canonical a" "canonical b" "canonical c" "strip s = a @ ''.'' @ b @ ''.'' @ c"
  shows "version_policy old3 old1 (Some s) = version_policy old3 old1 (Some (strip s)) \<and>
     version_policy old3 old1 (Some s) =
       Inr (Version3 (int (nat_of_digits a)) (int (nat_of_digits b)) (int (nat_of_digits c)),
            Version1 0,
            Version4 (int (nat_of_digits a)) (int (nat_of_digits b)) (int (nat_of_digits c)) 0) \<and>
     (s \<noteq> strip s \<longrightarrow> parse_version_3 s = Inl could_not_parse)"
proof -
  let ?t = "a @ CHR ''.'' # b @ CHR ''.'' # c"
  have st: "strip s = ?t" using assms(4) by simp
  have p: "parse_version_3 ?t =
      Inr (Version3 (int (nat_of_digits a)) (int (nat_of_digits b)) (int (nat_of_digits c)))"
    using parse_version_3_dotted [OF assms(1-3) [THEN canonical_digits], of "[]"] assms(1-3)
    by simp
  have ss: "strip ?t = ?t" using assms(1,3) by (rule canonical_dotted_strip)
  have ne: "s \<noteq> []" using st by (auto simp: strip_def)
  have "parse_version_3 s = Inl could_not_parse" if "s \<noteq> strip s"
  proof (cases "parse_version_3 s")
    case (Inl e)
    then show ?thesis using parse_version_3_error by simp
  next
    case (Inr v)
    from parse_version_3_strip [OF this] that show ?thesis by simp
  qed
  then show ?thesis using ne by (simp add: version_policy_def st ss p)
qed

text \<open>
  The target 6.0.0 between two spaces.
\<close>

theorem target_is_stripped_witness:
  "canonical ''6'' \<and> canonical ''0'' \<and> strip '' 6.0.0 '' = ''6.0.0'' \<and>
   version_policy (Version3 5 19 0) (Version1 42) (Some '' 6.0.0 '') =
     version_policy (Version3 5 19 0) (Version1 42) (Some ''6.0.0'') \<and>
   parse_version_3 '' 6.0.0 '' = Inl could_not_parse"
proof -
  have c: "canonical ''6''" "canonical ''0''" by (simp_all add: canonical_def is_digit_def)
  have s: "strip '' 6.0.0 '' = ''6.0.0''" by code_simp
  have s': "strip '' 6.0.0 '' = ''6'' @ ''.'' @ ''0'' @ ''.'' @ ''0''" using s by simp
  from target_is_stripped [OF c(1) c(2) c(2) s', of "Version3 5 19 0" "Version1 42"] c s
  show ?thesis by simp
qed

text \<open>
  C2: when the status query or the diff query prints something, the run ends with an
  error and the file system and the recorded commands are as they were: no descriptor has
  been written, and no command has run.  The script strips the output before it tests its
  length; what git prints for these queries has a character that is not whitespace.
\<close>

theorem dirty_repository_aborts:
  assumes "git_status e = Some out \<or> git_diff e = Some out"
    and "git_output out" and "out \<noteq> []"
  shows "\<exists>err. main e w = (Some err, w)"
proof -
  from strip_visible [OF assms(2,3)] assms(1)
  have "(git_status e = Some out \<and> strip out \<noteq> []) \<or> (git_diff e = Some out \<and> strip out \<noteq> [])"
    by blast
  then show ?thesis by (rule dirty_aborts)
qed

text \<open>
  A modified file in the status output.
\<close>

theorem dirty_repository_aborts_witness:
  "git_status (example_env '' M Signal/Signal-Info.plist'') = Some '' M Signal/Signal-Info.plist'' \<and>
   git_output '' M Signal/Signal-Info.plist'' \<and> '' M Signal/Signal-Info.plist'' \<noteq> [] \<and>
   (\<exists>err. main (example_env '' M Signal/Signal-Info.plist'') (example_world example_plist) =
      (Some err, example_world example_plist))"
proof -
  have 1: "git_status (example_env '' M Signal/Signal-Info.plist'') = Some '' M Signal/Signal-Info.plist''"
    by (simp add: example_env_def)
  have 2: "git_output '' M Signal/Signal-Info.plist''" by code_simp
  have 3: "'' M Signal/Signal-Info.plist'' \<noteq> []" by simp
  from dirty_repository_aborts [OF disjI1, OF 1 2 3, of "example_world example_plist"]
  show ?thesis using 1 2 3 by blast
qed

text \<open>
  C3 as stated fails: each descriptor is validated just before it is written, in the
  order main application, share extension, notification extension.  When the share
  extension's descriptor lacks a key, the run fails after the main application's
  descriptor has been rewritten.
\<close>

theorem later_descriptor_fails_after_write:
  "fst (main (example_env []) (example_world example_plist_short)) = Some could_not_parse \<and>
   files (snd (main (example_env []) (example_world example_plist_short)))
     [''repo'', ''Signal'', ''Signal-Info.plist''] =
   Some ''<key>CFBundleShortVersionString</key><string>5.19.0</string><key>CFBundleVersion</key><string>43</string><key>OWSBundleVersion4</key><string>5.19.0.43</string>'' \<and>
   files (example_world example_plist_short) [''repo'', ''Signal'', ''Signal-Info.plist''] =
   Some ''<key>CFBundleShortVersionString</key><string>5.19.0</string><key>CFBundleVersion</key><string>42</string><key>OWSBundleVersion4</key><string>5.19.0.42</string>''"
  by code_simp

text \<open>
  C3, as amended: a run that fails with \<^verbatim>\<open>Could not parse .plist\<close> has converted the
  three descriptors, and no descriptor is left with some of its values replaced: each is
  as the conversion left it or has its three values replaced by the new versions, which
  are computed from the main application's descriptor and the target.  One of three
  things holds.  Either the failure is the main application's descriptor's (its versions
  cannot be read, the target cannot be parsed, or a key is not found when it is
  rewritten) and the file system is as the conversion left it.  Or the main application's
  descriptor is rewritten, the share extension's descriptor fails, and the two
  extensions' descriptors are as the conversion left them.  Or the main application's and
  the share extension's descriptors are rewritten, the notification extension's descriptor
  fails and is as the conversion left it.
\<close>

theorem descriptors_rewritten_in_order:
  assumes run: "main e w = (Some could_not_parse, w')"
  shows "\<exists>root w1.
     find_project_root e w = Inr root \<and>
     convert_all e w
       [root @ [''Signal'', ''Signal-Info.plist''],
        root @ [''SignalShareExtension'', ''Info.plist''],
        root @ [''NotificationServiceExtension'', ''Info.plist'']] = (None, w1) \<and>
     (w' = w1 \<and>
        (get_versions w1 (root @ [''Signal'', ''Signal-Info.plist'']) = Inl could_not_parse \<or>
         (\<exists>old3 old1.
            get_versions w1 (root @ [''Signal'', ''Signal-Info.plist'']) = Inr (old3, old1) \<and>
            version_policy old3 old1 (version e) = Inl could_not_parse) \<or>
         (\<exists>old3 old1 new3 new1 new4.
            get_versions w1 (root @ [''Signal'', ''Signal-Info.plist'']) = Inr (old3, old1) \<and>
            version_policy old3 old1 (version e) = Inr (new3, new1, new4) \<and>
            set_versions w1 (root @ [''Signal'', ''Signal-Info.plist''])
              (formatted3 new3) (formatted1 new1) (formatted4 new4) = Inl could_not_parse)) \<or>
      (\<exists>old3 old1 new3 new1 new4 wm.
         get_versions w1 (root @ [''Signal'', ''Signal-Info.plist'']) = Inr (old3, old1) \<and>
         version_policy old3 old1 (version e) = Inr (new3, new1, new4) \<and>
         set_versions w1 (root @ [''Signal'', ''Signal-Info.plist''])
           (formatted3 new3) (formatted1 new1) (formatted4 new4) = Inr wm \<and>
         rewritten w1 w' (formatted3 new3) (formatted1 new1) (formatted4 new4)
           (root @ [''Signal'', ''Signal-Info.plist'']) \<and>
         untouched w1 w' (root @ [''NotificationServiceExtension'', ''Info.plist'']) \<and>
         (w' = wm \<and>
          set_versions wm (root @ [''SignalShareExtension'', ''Info.plist''])
            (formatted3 new3) (formatted1 new1) (formatted4 new4) = Inl could_not_parse \<and>
          untouched w1 w' (root @ [''SignalShareExtension'', ''Info.plist'']) \<or>
          (\<exists>ws. w' = ws \<and>
             set_versions wm (root @ [''SignalShareExtension'', ''Info.plist''])
               (formatted3 new3) (formatted1 new1) (formatted4 new4) = Inr ws \<and>
             set_versions ws (root @ [''NotificationServiceExtension'', ''Info.plist''])
               (formatted3 new3) (formatted1 new1) (formatted4 new4) = Inl could_not_parse \<and>
             rewritten w1 w' (formatted3 new3) (formatted1 new1) (formatted4 new4)
               (root @ [''SignalShareExtension'', ''Info.plist''])))))"
proof -
  have cnp: "could_not_parse \<noteq> Exit1" "could_not_parse \<noteq> ValueError"
    by (simp_all add: could_not_parse_def)
  from main_reaches_conversion [OF run] obtain root w1 where
    root: "find_project_root e w = Inr root"
    and conv: "convert_all e w
       [root @ [''Signal'', ''Signal-Info.plist''],
        root @ [''SignalShareExtension'', ''Info.plist''],
        root @ [''NotificationServiceExtension'', ''Info.plist'']] = (None, w1)"
    and rest: "(case get_versions w1 (root @ [''Signal'', ''Signal-Info.plist'']) of
        Inl err \<Rightarrow> (Some err, w1)
      | Inr (old_release_version, old_build_version_1) \<Rightarrow>
     (case version_policy old_release_version old_build_version_1 (version e) of
        Inl err \<Rightarrow> (Some err, w1)
      | Inr (new_release_version_3, new_build_version_1, new_build_version_4) \<Rightarrow>
     (case set_versions_all w1
             [root @ [''Signal'', ''Signal-Info.plist''],
              root @ [''SignalShareExtension'', ''Info.plist''],
              root @ [''NotificationServiceExtension'', ''Info.plist'']]
             (formatted3 new_release_version_3)
             (formatted1 new_build_version_1) (formatted4 new_build_version_4) of
        (Some err, w2) \<Rightarrow> (Some err, w2)
      | (None, w2) \<Rightarrow> git_steps e w2 (formatted4 new_build_version_4)))) =
      (Some could_not_parse, w')"
    by auto
  let ?m = "root @ [''Signal'', ''Signal-Info.plist'']"
  let ?s = "root @ [''SignalShareExtension'', ''Info.plist'']"
  let ?n = "root @ [''NotificationServiceExtension'', ''Info.plist'']"
  let ?A = "\<lambda>w1. w' = w1 \<and>
        (get_versions w1 ?m = Inl could_not_parse \<or>
         (\<exists>old3 old1.
            get_versions w1 ?m = Inr (old3, old1) \<and>
            version_policy old3 old1 (version e) = Inl could_not_parse) \<or>
         (\<exists>old3 old1 new3 new1 new4.
            get_versions w1 ?m = Inr (old3, old1) \<and>
            version_policy old3 old1 (version e) = Inr (new3, new1, new4) \<and>
            set_versions w1 ?m
              (formatted3 new3) (formatted1 new1) (formatted4 new4) = Inl could_not_parse))"
  let ?B = "\<lambda>w1. (\<exists>old3 old1 new3 new1 new4 wm.
         get_versions w1 ?m = Inr (old3, old1) \<and>
         version_policy old3 old1 (version e) = Inr (new3, new1, new4) \<and>
         set_versions w1 ?m
           (formatted3 new3) (formatted1 new1) (formatted4 new4) = Inr wm \<and>
         rewritten w1 w' (formatted3 new3) (formatted1 new1) (formatted4 new4) ?m \<and>
         untouched w1 w' ?n \<and>
         (w' = wm \<and>
          set_versions wm ?s
            (formatted3 new3) (formatted1 new1) (formatted4 new4) = Inl could_not_parse \<and>
          untouched w1 w' ?s \<or>
          (\<exists>ws. w' = ws \<and>
             set_versions wm ?s
               (formatted3 new3) (formatted1 new1) (formatted4 new4) = Inr ws \<and>
             set_versions ws ?n
               (formatted3 new3) (formatted1 new1) (formatted4 new4) = Inl could_not_parse \<and>
             rewritten w1 w' (formatted3 new3) (formatted1 new1) (formatted4 new4) ?s)))"
  have d: "?m \<noteq> ?s" "?m \<noteq> ?n" "?s \<noteq> ?n" by simp_all
  have "?A w1 \<or> ?B w1"
  proof (cases "get_versions w1 ?m")
    case (Inl err)
    with rest have "w' = w1" "err = could_not_parse" by simp_all
    with Inl show ?thesis by simp
  next
    case (Inr old)
    obtain o3 o1 where old: "old = (o3, o1)" by (cases old)
    note gv = Inr [unfolded old]
    show ?thesis
    proof (cases "version_policy o3 o1 (version e)")
      case (Inl err)
      with rest gv have "w' = w1" "err = could_not_parse" by simp_all
      with Inl gv have "?A w1" by simp
      then show ?thesis by (rule disjI1)
    next
      case new: (Inr new)
      obtain n3 n1 n4 where new': "new = (n3, n1, n4)" by (cases new)
      note vp = new [unfolded new']
      obtain sres w2 where sv: "set_versions_all w1 [?m, ?s, ?n] (formatted3 n3)
             (formatted1 n1) (formatted4 n4) = (sres, w2)"
        by (cases "set_versions_all w1 [?m, ?s, ?n] (formatted3 n3) (formatted1 n1) (formatted4 n4)")
      from rest have rest': "(case (sres, w2) of
           (Some err, w2) \<Rightarrow> (Some err, w2)
         | (None, w2) \<Rightarrow> git_steps e w2 (formatted4 n4)) = (Some could_not_parse, w')"
        unfolding gv vp sum.case prod.case sv .
      show ?thesis
      proof (cases sres)
        case None
        with rest' have "git_steps e w2 (formatted4 n4) = (Some could_not_parse, w')" by simp
        from git_steps_error [OF this] cnp show ?thesis by simp
      next
        case (Some err)
        with rest' have "w2 = w'" "err = could_not_parse" by simp_all
        with sv Some have sv': "set_versions_all w1 [?m, ?s, ?n] (formatted3 n3)
             (formatted1 n1) (formatted4 n4) = (Some could_not_parse, w')" by simp
        from set_versions_all_fails [OF d sv'] show ?thesis
        proof
          assume a: "set_versions w1 ?m (formatted3 n3) (formatted1 n1) (formatted4 n4) =
              Inl could_not_parse \<and> w' = w1"
          have "?A w1"
            apply (rule conjI)
             apply (rule a [THEN conjunct2])
            apply (rule disjI2, rule disjI2)
            apply (rule exI [of _ o3], rule exI [of _ o1], rule exI [of _ n3],
                rule exI [of _ n1], rule exI [of _ n4])
            apply (intro conjI)
              apply (rule gv)
             apply (rule vp)
            apply (rule a [THEN conjunct1])
            done
          then show ?thesis by (rule disjI1)
        next
          assume "\<exists>wm. set_versions w1 ?m (formatted3 n3) (formatted1 n1) (formatted4 n4) = Inr wm \<and>
            rewritten w1 w' (formatted3 n3) (formatted1 n1) (formatted4 n4) ?m \<and>
            untouched w1 w' ?n \<and>
            (w' = wm \<and> set_versions wm ?s (formatted3 n3) (formatted1 n1) (formatted4 n4) =
               Inl could_not_parse \<and> untouched w1 w' ?s \<or>
             (\<exists>ws. w' = ws \<and>
                set_versions wm ?s (formatted3 n3) (formatted1 n1) (formatted4 n4) = Inr ws \<and>
                set_versions ws ?n (formatted3 n3) (formatted1 n1) (formatted4 n4) =
                  Inl could_not_parse \<and>
                rewritten w1 w' (formatted3 n3) (formatted1 n1) (formatted4 n4) ?s))"
          then obtain wm where b: "set_versions w1 ?m (formatted3 n3) (formatted1 n1) (formatted4 n4) = Inr wm \<and>
            rewritten w1 w' (formatted3 n3) (formatted1 n1) (formatted4 n4) ?m \<and>
            untouched w1 w' ?n \<and>
            (w' = wm \<and> set_versions wm ?s (formatted3 n3) (formatted1 n1) (formatted4 n4) =
               Inl could_not_parse \<and> untouched w1 w' ?s \<or>
             (\<exists>ws. w' = ws \<and>
                set_versions wm ?s (formatted3 n3) (formatted1 n1) (formatted4 n4) = Inr ws \<and>
                set_versions ws ?n (formatted3 n3) (formatted1 n1) (formatted4 n4) =
                  Inl could_not_parse \<and>
                rewritten w1 w' (formatted3 n3) (formatted1 n1) (formatted4 n4) ?s))"
            by (rule exE)
          have "?B w1"
            apply (rule exI [of _ o3], rule exI [of _ o1], rule exI [of _ n3],
                rule exI [of _ n1], rule exI [of _ n4], rule exI [of _ wm])
            apply (rule conjI, rule gv)
            apply (rule conjI, rule vp)
            apply (rule b)
            done
          then show ?thesis by (rule disjI2)
        qed
      qed
    qed
  qed
  then show ?thesis
    apply -
    apply (rule exI [of _ root], rule exI [of _ w1])
    apply (rule conjI, rule root)
    apply (rule conjI, rule conv)
    apply assumption
    done
qed

text \<open>
  The run in which the share extension's descriptor lacks a key.
\<close>

theorem descriptors_rewritten_in_order_witness:
  "main (example_env []) (example_world example_plist_short) =
     (Some could_not_parse, snd (main (example_env []) (example_world example_plist_short))) \<and>
   (\<exists>root w1.
     find_project_root (example_env []) (example_world example_plist_short) = Inr root \<and>
     convert_all (example_env []) (example_world example_plist_short)
       [root @ [''Signal'', ''Signal-Info.plist''],
        root @ [''SignalShareExtension'', ''Info.plist''],
        root @ [''NotificationServiceExtension'', ''Info.plist'']] = (None, w1) \<and>
     (snd (main (example_env []) (example_world example_plist_short)) = w1 \<and>
        (get_versions w1 (root @ [''Signal'', ''Signal-Info.plist'']) = Inl could_not_parse \<or>
         (\<exists>old3 old1.
            get_versions w1 (root @ [''Signal'', ''Signal-Info.plist'']) = Inr (old3, old1) \<and>
            version_policy old3 old1 (version (example_env [])) = Inl could_not_parse) \<or>
         (\<exists>old3 old1 new3 new1 new4.
            get_versions w1 (root @ [''Signal'', ''Signal-Info.plist'']) = Inr (old3, old1) \<and>
            version_policy old3 old1 (version (example_env [])) = Inr (new3, new1, new4) \<and>
            set_versions w1 (root @ [''Signal'', ''Signal-Info.plist''])
              (formatted3 new3) (formatted1 new1) (formatted4 new4) = Inl could_not_parse)) \<or>
      (\<exists>old3 old1 new3 new1 new4 wm.
         get_versions w1 (root @ [''Signal'', ''Signal-Info.plist'']) = Inr (old3, old1) \<and>
         version_policy old3 old1 (version (example_env [])) = Inr (new3, new1, new4) \<and>
         set_versions w1 (root @ [''Signal'', ''Signal-Info.plist''])
           (formatted3 new3) (formatted1 new1) (formatted4 new4) = Inr wm \<and>
         rewritten w1 (snd (main (example_env []) (example_world example_plist_short)))
           (formatted3 new3) (formatted1 new1) (formatted4 new4)
           (root @ [''Signal'', ''Signal-Info.plist'']) \<and>
         untouched w1 (snd (main (example_env []) (example_world example_plist_short)))
           (root @ [''NotificationServiceExtension'', ''Info.plist'']) \<and>
         (snd (main (example_env []) (example_world example_plist_short)) = wm \<and>
          set_versions wm (root @ [''SignalShareExtension'', ''Info.plist''])
            (formatted3 new3) (formatted1 new1) (formatted4 new4) = Inl could_not_parse \<and>
          untouched w1 (snd (main (example_env []) (example_world example_plist_short)))
            (root @ [''SignalShareExtension'', ''Info.plist'']) \<or>
          (\<exists>ws. snd (main (example_env []) (example_world example_plist_short)) = ws \<and>
             set_versions wm (root @ [''SignalShareExtension'', ''Info.plist''])
               (formatted3 new3) (formatted1 new1) (formatted4 new4) = Inr ws \<and>
             set_versions ws (root @ [''NotificationServiceExtension'', ''Info.plist''])
               (formatted3 new3) (formatted1 new1) (formatted4 new4) = Inl could_not_parse \<and>
             rewritten w1 (snd (main (example_env []) (example_world example_plist_short)))
               (formatted3 new3) (formatted1 new1) (formatted4 new4)
               (root @ [''SignalShareExtension'', ''Info.plist'']))))))"
proof -
  have f: "fst (main (example_env []) (example_world example_plist_short)) = Some could_not_parse"
    by code_simp
  then have run: "main (example_env []) (example_world example_plist_short) =
     (Some could_not_parse, snd (main (example_env []) (example_world example_plist_short)))"
    by (simp add: prod_eq_iff)
  show ?thesis
    apply (rule conjI)
     apply (rule run)
    apply (rule descriptors_rewritten_in_order [OF run])
    done
qed

end
